theory Spec2Isabelle
  imports Main "HOL-Library.AList" "HOL-Library.Sublist"
begin

section \<open>Values shared by the Fetcher and the Bulker\<close>

text \<open>
  A Python \<open>dict\<close> with string keys is an association list in insertion order:
  \<open>k in d\<close> is \<open>map_of d k \<noteq> None\<close>, \<open>d[k]\<close> is \<open>map_of d k\<close> (a missing key
  raises \<open>KeyError\<close>), \<open>d[k] = v\<close> is \<open>AList.update k v d\<close> (in place when the key is
  there, appended otherwise) and \<open>d.pop(k)\<close> is \<open>AList.delete k d\<close> together with the
  value read before. Ids and timestamps are strings.
\<close>

type_synonym document = "(string \<times> string) list"

datatype error = KeyError | TypeError | ApiError

text \<open>
  What a coroutine does in the end: it returns, it raises, or it waits for ever on a
  queue that nobody feeds any more.
\<close>

datatype 'a outcome = Returned 'a | Raised error | Blocked

text \<open>
  The dictionaries put on the shared queue (\<open>byoei.py\<close>, lines 120-126, 181-187 and 197):
  \<open>_op_type\<close>, \<open>_index\<close> and \<open>_id\<close> are always there, \<open>doc\<close> and \<open>doc_as_upsert\<close>
  only for the operations that carry a body.
\<close>

record operation =
  op_type :: string
  op_index :: string
  op_id :: string
  op_doc :: "document option"
  op_doc_as_upsert :: "bool option"

text \<open>An item of the shared queue: one of the two end markers, or an operation.\<close>

datatype item = END_DOCS | END_DOWNLOADS | Op operation

text \<open>
  An entry of a bulk request: \<open>{action: {"_index": i, "_id": d}}\<close> is \<open>Action action i d\<close>
  and \<open>{"doc": body, "doc_as_upsert": u}\<close> is \<open>Body body u\<close>.
\<close>

datatype wire = Action string string string | Body document bool

section \<open>Bulker\<close>

text \<open>
  \<open>self.ops\<close> is a \<open>defaultdict(int)\<close>: reading a missing key gives 0.
  \<open>self.bulk_time\<close> accumulates wall-clock durations and is left out.
\<close>

record bulker =
  bulking :: bool
  ops :: "(string \<times> nat) list"
  chunk_size :: nat

definition Bulker :: bulker where
  "Bulker = \<lparr>bulking = False, ops = [], chunk_size = 500\<rparr>"

definition counter :: "(string \<times> nat) list \<Rightarrow> string \<Rightarrow> nat" where
  "counter d k = (case map_of d k of None \<Rightarrow> 0 | Some n \<Rightarrow> n)"

definition incr :: "string \<Rightarrow> (string \<times> nat) list \<Rightarrow> (string \<times> nat) list" where
  "incr k d = AList.update k (counter d k + 1) d"

text \<open>
  \<open>_batch_bulk\<close> (lines 31-40): one call of the client's bulk API on a batch. The client
  is a parameter: it answers or raises.
\<close>

definition batch_bulk :: "(wire list \<Rightarrow> error + 'r) \<Rightarrow> wire list \<Rightarrow> error + 'r" where
  "batch_bulk client operations = client operations"

text \<open>
  The loop of \<open>Bulker.run\<close> (lines 48-74) over the items the queue delivers, oldest
  first. \<open>batch\<close> is the growing batch, \<open>tasks\<close> the batches already handed to
  \<open>_batch_bulk\<close> (the local list \<open>ops\<close> of the source), in the order of the calls. When
  the queue delivers nothing more before both markers were seen, \<open>queue.get()\<close> never
  returns. The loop leaves with the bulker, the batch, the tasks and the items it did not
  read.
\<close>

fun drain ::
  "bulker \<Rightarrow> wire list \<Rightarrow> wire list list \<Rightarrow> bool \<Rightarrow> bool \<Rightarrow> item list \<Rightarrow>
   (bulker \<times> wire list \<times> wire list list \<times> item list) outcome"
where
  "drain b batch tasks docs_ended downloads_ended [] = Blocked"
| "drain b batch tasks docs_ended downloads_ended (doc # queue) =
     (let docs_ended = (if doc = END_DOCS then True else docs_ended);
          downloads_ended = (if doc = END_DOWNLOADS then True else downloads_ended)
      in
        if docs_ended \<and> downloads_ended then Returned (b, batch, tasks, queue)
        else
          (case doc of
             END_DOCS \<Rightarrow> drain b batch tasks docs_ended downloads_ended queue
           | END_DOWNLOADS \<Rightarrow> drain b batch tasks docs_ended downloads_ended queue
           | Op d \<Rightarrow>
               (let operation = op_type d;
                    b = b\<lparr>ops := incr operation (ops b)\<rparr>
                in
                  if operation = ''update'' \<or> operation = ''create'' then
                    (case op_doc d of
                       None \<Rightarrow> Raised KeyError
                     | Some body \<Rightarrow>
                         (let batch = batch @ [Action ''update'' (op_index d) (op_id d),
                                               Body body True]
                          in
                            if length batch \<ge> chunk_size b * 2
                            then drain b [] (tasks @ [batch]) docs_ended downloads_ended queue
                            else drain b batch tasks docs_ended downloads_ended queue))
                  else
                    (let batch = batch @ [Action operation (op_index d) (op_id d)]
                     in
                       if length batch \<ge> chunk_size b * 2
                       then drain b [] (tasks @ [batch]) docs_ended downloads_ended queue
                       else drain b batch tasks docs_ended downloads_ended queue))))"

text \<open>
  \<open>asyncio.gather\<close> over the dispatch tasks (line 80): it returns once every task has
  returned and raises when one of them raised.
\<close>

fun gather :: "(error + 'r) list \<Rightarrow> error + 'r list" where
  "gather [] = Inr []"
| "gather (Inl e # rs) = Inl e"
| "gather (Inr r # rs) = (case gather rs of Inl e \<Rightarrow> Inl e | Inr xs \<Rightarrow> Inr (r # xs))"

text \<open>
  \<open>Bulker.run\<close> (lines 42-80): the loop, the flush of a non-empty last batch, the wait
  for all the dispatch tasks. It returns the bulker, the batches dispatched and the items
  left on the queue.
\<close>

definition Bulker_run ::
  "(wire list \<Rightarrow> error + 'r) \<Rightarrow> bulker \<Rightarrow> item list \<Rightarrow>
   (bulker \<times> wire list list \<times> item list) outcome"
where
  "Bulker_run client b queue =
     (case drain (b\<lparr>bulking := True\<rparr>) [] [] False False queue of
        Blocked \<Rightarrow> Blocked
      | Raised e \<Rightarrow> Raised e
      | Returned (b', batch, tasks, rest) \<Rightarrow>
          (let tasks = (if length batch > 0 then tasks @ [batch] else tasks)
           in case gather (map (batch_bulk client) tasks) of
                Inl e \<Rightarrow> Raised e
              | Inr _ \<Rightarrow> Returned (b', tasks, rest)))"

section \<open>Fetcher\<close>

text \<open>
  The generator yields pairs of a document and a lazy download (or \<open>None\<close>). The
  documents are the caller's objects, which \<open>get_docs\<close> changes in place, so they live
  in a store and the generator yields their addresses. A lazy download is called with
  \<open>doit\<close> and an optional \<open>timestamp\<close>, and answers attachment fields or \<open>None\<close>.
\<close>

type_synonym addr = nat
type_synonym heap = "addr \<Rightarrow> document"
type_synonym lazy_download = "bool \<Rightarrow> string option \<Rightarrow> document option"

text \<open>
  An item of \<open>self._downloads\<close>: the marker \<open>"END"\<close>, or a task created from
  \<open>lazy_download(doit=True, timestamp=...)\<close>, given by the value awaiting it yields.
\<close>

datatype download = END | Task "document option"

record fetcher =
  index :: string
  existing_ids :: "string list"
  existing_timestamps :: "(string \<times> string) list"
  sync_runs :: bool
  total_downloads :: nat
  total_docs_updated :: nat
  total_docs_created :: nat

text \<open>
  \<open>Fetcher.__init__\<close> (lines 86-101). \<open>existing_ids\<close> is a Python set: a list without
  repetition, in the order in which the set is iterated.
\<close>

definition Fetcher :: "string \<Rightarrow> string list \<Rightarrow> (string \<times> string) list \<Rightarrow> fetcher" where
  "Fetcher idx ids timestamps =
     \<lparr>index = idx, existing_ids = ids, existing_timestamps = timestamps, sync_runs = False,
      total_downloads = 0, total_docs_updated = 0, total_docs_created = 0\<rparr>"

text \<open>
  What a coroutine of the Fetcher works on: the Fetcher itself, the store of the caller's
  documents, what the coroutine has put on \<open>self.queue\<close> and on \<open>self._downloads\<close> so far
  (oldest first), how often the wall clock was read, and the local set \<open>seen_ids\<close> of
  \<open>get_docs\<close>. Both queues are bounded; a full queue only delays its producer, since its
  consumer never waits for that producer, and the delay is left out.
\<close>

record world =
  self :: fetcher
  heap :: heap
  queue :: "item list"
  downloads :: "download list"
  clock :: nat
  seen_ids :: "string set"

definition put :: "item \<Rightarrow> world \<Rightarrow> world" where
  "put x w = w\<lparr>queue := queue w @ [x]\<rparr>"

text \<open>\<open>d.get(k, default)\<close>.\<close>

definition get_default :: "(string \<times> string) list \<Rightarrow> string \<Rightarrow> string \<Rightarrow> string" where
  "get_default d k dflt = (case map_of d k of None \<Rightarrow> dflt | Some v \<Rightarrow> v)"

text \<open>
  Lines 166-188 of \<open>get_docs\<close>: schedule the download when there is one, count the
  document as updated or created, put the operation on the queue. The operation holds the
  document; the model stores its fields as they are at that moment (the sync does not
  change the object afterwards: a second visit of the same object fails on the missing
  \<open>_id\<close> before it writes anything).
\<close>

definition enqueue :: "world \<Rightarrow> addr \<Rightarrow> string \<Rightarrow> lazy_download option \<Rightarrow> world" where
  "enqueue w a doc_id lazy_download =
     (let doc = heap w a;
          w = (case lazy_download of
                 None \<Rightarrow> w
               | Some l \<Rightarrow>
                   w\<lparr>downloads := downloads w @ [Task (l True (map_of doc ''timestamp''))]\<rparr>);
          operation = (if doc_id \<in> set (existing_ids (self w)) then ''update'' else ''create'');
          w = (if doc_id \<in> set (existing_ids (self w))
               then w\<lparr>self := (self w)\<lparr>total_docs_updated := total_docs_updated (self w) + 1\<rparr>\<rparr>
               else w\<lparr>self := (self w)\<lparr>total_docs_created := total_docs_created (self w) + 1\<rparr>\<rparr>)
      in put (Op \<lparr>op_type = operation, op_index = index (self w), op_id = doc_id,
                  op_doc = Some doc, op_doc_as_upsert = Some True\<rparr>) w)"

text \<open>
  Lines 149-151, once \<open>doc.pop("_id")\<close> has given \<open>doc_id\<close>: the document of the caller
  at address \<open>a\<close> loses \<open>_id\<close> and receives \<open>id\<close>, and the id is added to \<open>seen_ids\<close>.
\<close>

definition received :: "world \<Rightarrow> addr \<Rightarrow> string \<Rightarrow> world" where
  "received w a doc_id =
     (let w = w\<lparr>heap := (heap w)
                 (a := AList.update ''id'' doc_id (AList.delete ''_id'' (heap w a)))\<rparr>;
          w = w\<lparr>seen_ids := insert doc_id (seen_ids w)\<rparr>
      in w)"

text \<open>
  Lines 158-189, on the store as \<open>received\<close> left it: skip, or stamp a document without
  timestamp, and enqueue. \<open>iso_utc\<close> is the wall clock, by the number of times it was read
  before. Awaiting \<open>lazy_download(doit=False)\<close> when \<open>lazy_download\<close> is \<open>None\<close> raises
  \<open>TypeError\<close>; otherwise its answer is dropped.
\<close>

definition classify ::
  "(nat \<Rightarrow> string) \<Rightarrow> world \<Rightarrow> addr \<Rightarrow> string \<Rightarrow> lazy_download option \<Rightarrow> world outcome"
where
  "classify iso_utc w a doc_id lazy_download =
     (case map_of (heap w a) ''timestamp'' of
        Some timestamp \<Rightarrow>
          if get_default (existing_timestamps (self w)) doc_id '''' = timestamp then
            (case lazy_download of
               None \<Rightarrow> Raised TypeError
             | Some l \<Rightarrow> Returned w)
          else Returned (enqueue w a doc_id lazy_download)
      | None \<Rightarrow>
          (let w = w\<lparr>heap := (heap w)
                      (a := AList.update ''timestamp'' (iso_utc (clock w)) (heap w a)),
                    clock := clock w + 1\<rparr>
           in Returned (enqueue w a doc_id lazy_download)))"

text \<open>
  The body of the loop of \<open>get_docs\<close> (lines 148-189) for one pair of the generator:
  \<open>doc.pop("_id")\<close> raises \<open>KeyError\<close> on a document without \<open>_id\<close>, before anything is
  written.
\<close>

definition get_docs_body ::
  "(nat \<Rightarrow> string) \<Rightarrow> world \<Rightarrow> addr \<times> lazy_download option \<Rightarrow> world outcome"
where
  "get_docs_body iso_utc w p =
     (case p of (a, lazy_download) \<Rightarrow>
        (case map_of (heap w a) ''_id'' of
           None \<Rightarrow> Raised KeyError
         | Some doc_id \<Rightarrow> classify iso_utc (received w a doc_id) a doc_id lazy_download))"

fun get_docs_loop ::
  "(nat \<Rightarrow> string) \<Rightarrow> world \<Rightarrow> (addr \<times> lazy_download option) list \<Rightarrow> world outcome"
where
  "get_docs_loop iso_utc w [] = Returned w"
| "get_docs_loop iso_utc w (p # generator) =
     (case get_docs_body iso_utc w p of
        Returned w' \<Rightarrow> get_docs_loop iso_utc w' generator
      | Raised e \<Rightarrow> Raised e
      | Blocked \<Rightarrow> Blocked)"

text \<open>Lines 193-198: a delete for every existing id that was not seen.\<close>

fun delete_unseen :: "world \<Rightarrow> string list \<Rightarrow> world" where
  "delete_unseen w [] = w"
| "delete_unseen w (doc_id # ids) =
     (if doc_id \<in> seen_ids w then delete_unseen w ids
      else delete_unseen
             (put (Op \<lparr>op_type = ''delete'', op_index = index (self w), op_id = doc_id,
                        op_doc = None, op_doc_as_upsert = None\<rparr>) w) ids)"

text \<open>
  \<open>get_docs\<close> (lines 142-201) over a generator that yields the pairs of the list and
  is then exhausted.
\<close>

definition get_docs ::
  "(nat \<Rightarrow> string) \<Rightarrow> world \<Rightarrow> (addr \<times> lazy_download option) list \<Rightarrow> world outcome"
where
  "get_docs iso_utc w generator =
     (case get_docs_loop iso_utc
             (w\<lparr>self := (self w)\<lparr>sync_runs := True\<rparr>, seen_ids := {}\<rparr>) generator of
        Raised e \<Rightarrow> Raised e
      | Blocked \<Rightarrow> Blocked
      | Returned w \<Rightarrow>
          (let w = delete_unseen w (existing_ids (self w));
               w = w\<lparr>downloads := downloads w @ [END]\<rparr>
           in Returned (put END_DOCS w)))"

text \<open>
  \<open>get_attachments\<close> (lines 104-135) over the items \<open>self._downloads\<close> delivers. With
  nothing more to deliver and no \<open>"END"\<close> read, \<open>self._downloads.get()\<close> never returns.
\<close>

fun get_attachments :: "world \<Rightarrow> download list \<Rightarrow> world outcome" where
  "get_attachments w [] =
     (if sync_runs (self w) then Blocked else Returned (put END_DOWNLOADS w))"
| "get_attachments w (coro # rest) =
     (if \<not> sync_runs (self w) then Returned (put END_DOWNLOADS w)
      else
        (case coro of
           END \<Rightarrow> Returned (put END_DOWNLOADS w)
         | Task None \<Rightarrow> get_attachments w rest
         | Task (Some data) \<Rightarrow>
             (let w = w\<lparr>self := (self w)\<lparr>total_downloads := total_downloads (self w) + 1\<rparr>\<rparr>
              in case map_of data ''_id'' of
                   None \<Rightarrow> Raised KeyError
                 | Some i \<Rightarrow>
                     get_attachments
                       (put (Op \<lparr>op_type = ''update'', op_index = index (self w), op_id = i,
                                  op_doc = Some (AList.delete ''_id'' data),
                                  op_doc_as_upsert = Some True\<rparr>) w)
                       rest)))"

text \<open>
  The two coroutines of \<open>Fetcher.run\<close> put on the same queue, and the event loop decides
  in which order. A schedule says, item by item, whether the next item of the queue comes
  from \<open>get_docs\<close> (\<open>True\<close>) or from \<open>get_attachments\<close> (\<open>False\<close>); each coroutine's own
  items keep their order.
\<close>

fun interleave :: "bool list \<Rightarrow> 'a list \<Rightarrow> 'a list \<Rightarrow> 'a list" where
  "interleave s [] ys = ys"
| "interleave s (x # xs) [] = x # xs"
| "interleave [] (x # xs) (y # ys) = (x # xs) @ (y # ys)"
| "interleave (True # s) (x # xs) (y # ys) = x # interleave s xs (y # ys)"
| "interleave (False # s) (x # xs) (y # ys) = y # interleave s (x # xs) ys"

text \<open>
  \<open>Fetcher.run\<close> (lines 137-140). \<open>get_docs\<close> is started first and sets \<open>sync_runs\<close>
  before it waits for the first time, so \<open>get_attachments\<close> starts on that state. The
  result holds the queue as the Bulker reads it.
\<close>

definition Fetcher_run ::
  "(nat \<Rightarrow> string) \<Rightarrow> bool list \<Rightarrow> world \<Rightarrow> (addr \<times> lazy_download option) list \<Rightarrow>
   world outcome"
where
  "Fetcher_run iso_utc sched w generator =
     (case get_docs iso_utc w generator of
        Raised e \<Rightarrow> Raised e
      | Blocked \<Rightarrow> Blocked
      | Returned w1 \<Rightarrow>
          (case get_attachments (w1\<lparr>queue := []\<rparr>) (downloads w1) of
             Raised e \<Rightarrow> Raised e
           | Blocked \<Rightarrow> Blocked
           | Returned w2 \<Rightarrow> Returned (w2\<lparr>queue := interleave sched (queue w1) (queue w2)\<rparr>)))"

section \<open>ElasticServer.async\_bulk\<close>

text \<open>
  Lines 253-259: the ids and timestamps of the documents the scan of the index yields
  (none when the index does not exist).
\<close>

fun snapshot ::
  "string list \<Rightarrow> (string \<times> string) list \<Rightarrow> document list \<Rightarrow>
   (string list \<times> (string \<times> string) list) outcome"
where
  "snapshot ids timestamps [] = Returned (ids, timestamps)"
| "snapshot ids timestamps (es_doc # es_docs) =
     (case map_of es_doc ''id'' of
        None \<Rightarrow> Raised KeyError
      | Some i \<Rightarrow>
          (case map_of es_doc ''timestamp'' of
             None \<Rightarrow> Raised KeyError
           | Some t \<Rightarrow> snapshot (List.insert i ids) (AList.update i t timestamps) es_docs))"

record stats =
  bulk_operations :: "(string \<times> nat) list"
  doc_created :: nat
  attachment_extracted :: nat
  doc_updated :: nat

text \<open>\<open>async_bulk\<close> (lines 251-289).\<close>

definition async_bulk ::
  "(wire list \<Rightarrow> error + 'r) \<Rightarrow> (nat \<Rightarrow> string) \<Rightarrow> bool list \<Rightarrow> document list \<Rightarrow> string \<Rightarrow>
   heap \<Rightarrow> (addr \<times> lazy_download option) list \<Rightarrow> stats outcome"
where
  "async_bulk client iso_utc sched es_docs idx h generator =
     (case snapshot [] [] es_docs of
        Raised e \<Rightarrow> Raised e
      | Blocked \<Rightarrow> Blocked
      | Returned (ids, timestamps) \<Rightarrow>
          (case Fetcher_run iso_utc sched
                  \<lparr>self = Fetcher idx ids timestamps, heap = h, queue = [], downloads = [],
                   clock = 0, seen_ids = {}\<rparr> generator of
             Raised e \<Rightarrow> Raised e
           | Blocked \<Rightarrow> Blocked
           | Returned w \<Rightarrow>
               (case Bulker_run client Bulker (queue w) of
                  Raised e \<Rightarrow> Raised e
                | Blocked \<Rightarrow> Blocked
                | Returned (b, tasks, rest) \<Rightarrow>
                    Returned \<lparr>bulk_operations = ops b,
                              doc_created = total_docs_created (self w),
                              attachment_extracted = total_downloads (self w),
                              doc_updated = total_docs_updated (self w)\<rparr>)))"

section \<open>Auxiliary definitions\<close>

text \<open>
  The entries lines 64-68 append to the batch for one operation; \<open>None\<close> when reading
  \<open>doc["doc"]\<close> raises \<open>KeyError\<close>.
\<close>

definition wire_of :: "operation \<Rightarrow> wire list option" where
  "wire_of d =
     (if op_type d = ''update'' \<or> op_type d = ''create'' then
        (case op_doc d of
           None \<Rightarrow> None
         | Some body \<Rightarrow> Some [Action ''update'' (op_index d) (op_id d), Body body True])
      else Some [Action (op_type d) (op_index d) (op_id d)])"

text \<open>The operations among the items of a queue, in order.\<close>

fun operations :: "item list \<Rightarrow> operation list" where
  "operations [] = []"
| "operations (Op d # q) = d # operations q"
| "operations (END_DOCS # q) = operations q"
| "operations (END_DOWNLOADS # q) = operations q"

text \<open>
  The loop that starts with the flags \<open>de\<close> and \<open>dwe\<close> leaves right after reading \<open>x\<close>,
  having read \<open>pre\<close> before: \<open>x\<close> is the marker that was still missing.
\<close>

definition stops_at :: "bool \<Rightarrow> bool \<Rightarrow> item list \<Rightarrow> item \<Rightarrow> bool" where
  "stops_at de dwe pre x \<longleftrightarrow>
     (x = END_DOCS \<or> x = END_DOWNLOADS)
     \<and> (de \<or> END_DOCS \<in> set (pre @ [x])) \<and> (dwe \<or> END_DOWNLOADS \<in> set (pre @ [x]))
     \<and> \<not> ((de \<or> END_DOCS \<in> set pre) \<and> (dwe \<or> END_DOWNLOADS \<in> set pre))"

text \<open>The batches a run of the Bulker has dispatched.\<close>

definition dispatched :: "(bulker \<times> wire list list \<times> item list) outcome \<Rightarrow> wire list list" where
  "dispatched r = (case r of Returned (b, tasks, rest) \<Rightarrow> tasks | Raised e \<Rightarrow> [] | Blocked \<Rightarrow> [])"


subsection \<open>Example values\<close>

text \<open>A client whose bulk call always answers.\<close>

definition accept :: "wire list \<Rightarrow> error + unit" where
  "accept batch = Inr ()"

definition create_A :: operation where
  "create_A = \<lparr>op_type = ''create'', op_index = ''idx'', op_id = ''A'',
      op_doc = Some [(''id'', ''A''), (''timestamp'', ''T1'')], op_doc_as_upsert = Some True\<rparr>"

definition delete_C :: operation where
  "delete_C = \<lparr>op_type = ''delete'', op_index = ''idx'', op_id = ''C'',
      op_doc = None, op_doc_as_upsert = None\<rparr>"

definition queue_1001 :: "item list" where
  "queue_1001 = Op delete_C # replicate 499 (Op create_A) @ [Op create_A, END_DOCS, END_DOWNLOADS]"

definition queue_mixed :: "item list" where
  "queue_mixed = [Op delete_C, Op create_A, Op create_A, Op delete_C, END_DOWNLOADS, END_DOCS]"

definition queue_rest :: "item list" where
  "queue_rest = [Op delete_C, Op create_A, END_DOWNLOADS, Op create_A, END_DOCS, Op delete_C]"

subsection \<open>Auxiliary definitions for the Fetcher\<close>

text \<open>
  The document at address \<open>a\<close> after its visit by the loop of \<open>get_docs\<close>: \<open>_id\<close> popped,
  \<open>id\<close> set, and a \<open>timestamp\<close> read from the clock when there was none.
\<close>

definition visited :: "(nat \<Rightarrow> string) \<Rightarrow> world \<Rightarrow> addr \<Rightarrow> string \<Rightarrow> document" where
  "visited iso_utc w a doc_id =
     (let doc = AList.update ''id'' doc_id (AList.delete ''_id'' (heap w a))
      in if map_of (heap w a) ''timestamp'' = None
         then AList.update ''timestamp'' (iso_utc (clock w)) doc else doc)"

text \<open>The operation lines 173-187 put on the queue for a document.\<close>

definition put_op :: "world \<Rightarrow> string \<Rightarrow> document \<Rightarrow> operation" where
  "put_op w doc_id doc =
     \<lparr>op_type = (if doc_id \<in> set (existing_ids (self w)) then ''update'' else ''create''),
      op_index = index (self w), op_id = doc_id, op_doc = Some doc, op_doc_as_upsert = Some True\<rparr>"

text \<open>The test of lines 158-159: the document has the timestamp the snapshot gives.\<close>

definition skips :: "world \<Rightarrow> addr \<Rightarrow> string \<Rightarrow> bool" where
  "skips w a doc_id \<longleftrightarrow>
     map_of (heap w a) ''timestamp'' = Some (get_default (existing_timestamps (self w)) doc_id '''')"

text \<open>The ids of the documents a generator yields, read in the store \<open>h\<close>.\<close>

definition yielded :: "heap \<Rightarrow> (addr \<times> lazy_download option) list \<Rightarrow> string option list" where
  "yielded h generator = map (\<lambda>p. map_of (h (fst p)) ''_id'') generator"

text \<open>
  The ids of the documents lines 158-162 do not skip, in the order of the generator: the
  documents that carry \<open>_id\<close> and whose \<open>timestamp\<close> is absent or differs from the one
  the snapshot gives for the id (\<open>""\<close> for an id the snapshot does not know).
\<close>

definition classified :: "(string \<times> string) list \<Rightarrow> heap \<Rightarrow> (addr \<times> lazy_download option) list \<Rightarrow> string list" where
  "classified timestamps h generator =
     concat (map (\<lambda>p. case map_of (h (fst p)) ''_id'' of
                         None \<Rightarrow> []
                       | Some doc_id \<Rightarrow>
                           if map_of (h (fst p)) ''timestamp'' = Some (get_default timestamps doc_id '''')
                           then [] else [doc_id]) generator)"

text \<open>Create and update operations, and those for one id.\<close>

definition is_put :: "item \<Rightarrow> bool" where
  "is_put x = (case x of Op d \<Rightarrow> op_type d = ''create'' \<or> op_type d = ''update'' | _ \<Rightarrow> False)"

definition is_put_for :: "string \<Rightarrow> item \<Rightarrow> bool" where
  "is_put_for i x = (case x of Op d \<Rightarrow> (op_type d = ''create'' \<or> op_type d = ''update'') \<and> op_id d = i | _ \<Rightarrow> False)"

text \<open>The queue a coroutine of the Fetcher leaves, when it returns.\<close>

definition queue_of :: "world outcome \<Rightarrow> item list option" where
  "queue_of r = (case r of Returned w \<Rightarrow> Some (queue w) | Raised e \<Rightarrow> None | Blocked \<Rightarrow> None)"

text \<open>The operation line 197 puts on the queue for an id that was not seen.\<close>

definition delete_op :: "string \<Rightarrow> string \<Rightarrow> operation" where
  "delete_op idx i =
     \<lparr>op_type = ''delete'', op_index = idx, op_id = i, op_doc = None, op_doc_as_upsert = None\<rparr>"


text \<open>Delete operations among the items of a queue.\<close>

definition is_delete :: "item \<Rightarrow> bool" where
  "is_delete x = (case x of Op d \<Rightarrow> op_type d = ''delete'' | END_DOCS \<Rightarrow> False | END_DOWNLOADS \<Rightarrow> False)"

subsection \<open>Example values for the Fetcher\<close>

text \<open>
  A clock, a lazy download without attachment, a fresh world over a snapshot, a store
  with a document whose timestamp the snapshot knows, and one with a new document whose
  timestamp is the empty string.
\<close>

definition now :: "nat \<Rightarrow> string" where
  "now n = ''NOW''"

definition no_attachment :: lazy_download where
  "no_attachment doit timestamp = None"

definition start :: "string list \<Rightarrow> (string \<times> string) list \<Rightarrow> heap \<Rightarrow> world" where
  "start ids timestamps h =
     \<lparr>self = Fetcher ''idx'' ids timestamps, heap = h, queue = [], downloads = [],
      clock = 0, seen_ids = {}\<rparr>"

definition heap_unchanged :: heap where
  "heap_unchanged = (\<lambda>a. [])(0 := [(''_id'', ''A''), (''timestamp'', ''T1'')])"

definition heap_blank :: heap where
  "heap_blank = (\<lambda>a. [])(0 := [(''_id'', ''N''), (''timestamp'', '''')])"

text \<open>
  A store with a document whose timestamp differs from the snapshot's, and one where two
  documents carry the same id and no timestamp.
\<close>

definition heap_changed :: heap where
  "heap_changed = (\<lambda>a. [])(0 := [(''_id'', ''A''), (''timestamp'', ''T9'')])"

definition heap_twice :: heap where
  "heap_twice = (\<lambda>a. [])(0 := [(''_id'', ''A'')], 1 := [(''_id'', ''A'')])"

text \<open>A lazy download that answers attachment fields for the id \<open>A\<close> when committed.\<close>

definition attach_A :: lazy_download where
  "attach_A doit timestamp = (if doit then Some [(''_id'', ''A''), (''text'', ''body'')] else None)"

section \<open>The loop of the Bulker\<close>

lemma drain_END_DOCS: "drain b batch tasks de dwe (END_DOCS # q) =
   (if dwe then Returned (b, batch, tasks, q) else drain b batch tasks True dwe q)"
  by simp

lemma drain_END_DOWNLOADS: "drain b batch tasks de dwe (END_DOWNLOADS # q) =
   (if de then Returned (b, batch, tasks, q) else drain b batch tasks de True q)"
  by simp

lemma drain_Op: "drain b batch tasks de dwe (Op d # q) =
   (if de \<and> dwe then Returned (b, batch, tasks, q)
    else case wire_of d of
      None \<Rightarrow> Raised KeyError
    | Some es \<Rightarrow>
        if chunk_size b * 2 \<le> length (batch @ es)
        then drain (b\<lparr>ops := incr (op_type d) (ops b)\<rparr>) [] (tasks @ [batch @ es]) de dwe q
        else drain (b\<lparr>ops := incr (op_type d) (ops b)\<rparr>) (batch @ es) tasks de dwe q)"
  by (simp add: wire_of_def Let_def split: option.split)

lemma operations_append: "operations (xs @ ys) = operations xs @ operations ys"
  by (induction xs rule: operations.induct) simp_all

lemma stops_at_now:
  "dwe \<Longrightarrow> \<not> de \<Longrightarrow> stops_at de dwe [] END_DOCS"
  "de \<Longrightarrow> \<not> dwe \<Longrightarrow> stops_at de dwe [] END_DOWNLOADS"
  by (simp_all add: stops_at_def)

lemma stops_at_later:
  "\<not> dwe \<Longrightarrow> stops_at True dwe pre x \<Longrightarrow> stops_at de dwe (END_DOCS # pre) x"
  "\<not> de \<Longrightarrow> stops_at de True pre x \<Longrightarrow> stops_at de dwe (END_DOWNLOADS # pre) x"
  "stops_at de dwe pre x \<Longrightarrow> stops_at de dwe (Op d # pre) x"
  by (auto simp add: stops_at_def)

lemma drain_rule:
  assumes "drain b batch tasks de dwe q = Returned (b', batch', tasks', rest)"
    and "\<not> (de \<and> dwe)"
    and "I [] b batch tasks"
    and flush: "\<And>ds b batch tasks d es.
           \<lbrakk>I ds b batch tasks; wire_of d = Some es; chunk_size b * 2 \<le> length (batch @ es)\<rbrakk>
           \<Longrightarrow> I (ds @ [d]) (b\<lparr>ops := incr (op_type d) (ops b)\<rparr>) [] (tasks @ [batch @ es])"
    and keep: "\<And>ds b batch tasks d es.
           \<lbrakk>I ds b batch tasks; wire_of d = Some es; \<not> chunk_size b * 2 \<le> length (batch @ es)\<rbrakk>
           \<Longrightarrow> I (ds @ [d]) (b\<lparr>ops := incr (op_type d) (ops b)\<rparr>) (batch @ es) tasks"
  shows "\<exists>pre x. q = pre @ x # rest \<and> stops_at de dwe pre x \<and> I (operations pre) b' batch' tasks'"
  using assms(1-3) flush keep
proof (induction q arbitrary: b batch tasks de dwe I)
  case Nil
  then show ?case by simp
next
  case (Cons i q)
  note ret = Cons.prems(1) and opn = Cons.prems(2) and init = Cons.prems(3)
    and step = Cons.prems(4,5)
  show ?case
  proof (cases i)
    case END_DOCS
    show ?thesis
    proof (cases dwe)
      case True
      with ret END_DOCS have "rest = q" "b' = b" "batch' = batch" "tasks' = tasks"
        by (simp_all add: drain_END_DOCS del: drain.simps)
      moreover have "stops_at de dwe [] END_DOCS" using True opn by (simp add: stops_at_now)
      ultimately have "i # q = [] @ END_DOCS # rest \<and> stops_at de dwe [] END_DOCS
          \<and> I (operations []) b' batch' tasks'"
        using END_DOCS init by simp
      then show ?thesis by blast
    next
      case False
      with ret END_DOCS
      have "drain b batch tasks True dwe q = Returned (b', batch', tasks', rest)"
        by (simp add: drain_END_DOCS del: drain.simps)
      moreover have "\<not> (True \<and> dwe)" using False by simp
      ultimately obtain pre x where px: "q = pre @ x # rest" "stops_at True dwe pre x"
        "I (operations pre) b' batch' tasks'"
        using Cons.IH[of b batch tasks True dwe I] init step by blast
      have "i # q = (END_DOCS # pre) @ x # rest \<and> stops_at de dwe (END_DOCS # pre) x
          \<and> I (operations (END_DOCS # pre)) b' batch' tasks'"
        using px END_DOCS False by (simp add: stops_at_later)
      then show ?thesis by blast
    qed
  next
    case END_DOWNLOADS
    show ?thesis
    proof (cases de)
      case True
      with ret END_DOWNLOADS have "rest = q" "b' = b" "batch' = batch" "tasks' = tasks"
        by (simp_all add: drain_END_DOWNLOADS del: drain.simps)
      moreover have "stops_at de dwe [] END_DOWNLOADS" using True opn by (simp add: stops_at_now)
      ultimately have "i # q = [] @ END_DOWNLOADS # rest \<and> stops_at de dwe [] END_DOWNLOADS
          \<and> I (operations []) b' batch' tasks'"
        using END_DOWNLOADS init by simp
      then show ?thesis by blast
    next
      case False
      with ret END_DOWNLOADS
      have "drain b batch tasks de True q = Returned (b', batch', tasks', rest)"
        by (simp add: drain_END_DOWNLOADS del: drain.simps)
      moreover have "\<not> (de \<and> True)" using False by simp
      ultimately obtain pre x where px: "q = pre @ x # rest" "stops_at de True pre x"
        "I (operations pre) b' batch' tasks'"
        using Cons.IH[of b batch tasks de True I] init step by blast
      have "i # q = (END_DOWNLOADS # pre) @ x # rest \<and> stops_at de dwe (END_DOWNLOADS # pre) x
          \<and> I (operations (END_DOWNLOADS # pre)) b' batch' tasks'"
        using px END_DOWNLOADS False by (simp add: stops_at_later)
      then show ?thesis by blast
    qed
  next
    case (Op d)
    from ret opn Op obtain es where es: "wire_of d = Some es"
      by (auto simp add: drain_Op simp del: drain.simps split: option.splits)
    let ?b = "b\<lparr>ops := incr (op_type d) (ops b)\<rparr>"
    let ?I = "\<lambda>ds. I (d # ds)"
    have flush': "?I (ds @ [d']) (b\<lparr>ops := incr (op_type d') (ops b)\<rparr>) [] (tasks @ [batch @ es])"
      if "?I ds b batch tasks" "wire_of d' = Some es" "chunk_size b * 2 \<le> length (batch @ es)"
      for ds b batch tasks d' es
      using step(1)[of "d # ds" b batch tasks d' es] that by simp
    have keep': "?I (ds @ [d']) (b\<lparr>ops := incr (op_type d') (ops b)\<rparr>) (batch @ es) tasks"
      if "?I ds b batch tasks" "wire_of d' = Some es" "\<not> chunk_size b * 2 \<le> length (batch @ es)"
      for ds b batch tasks d' es
      using step(2)[of "d # ds" b batch tasks d' es] that by simp
    obtain batch1 tasks1 where
      d: "drain ?b batch1 tasks1 de dwe q = Returned (b', batch', tasks', rest)"
      and i1: "I [d] ?b batch1 tasks1"
    proof (cases "chunk_size b * 2 \<le> length (batch @ es)")
      case True
      with ret opn Op es
      have "drain ?b [] (tasks @ [batch @ es]) de dwe q = Returned (b', batch', tasks', rest)"
        by (simp add: drain_Op del: drain.simps)
      moreover have "I [d] ?b [] (tasks @ [batch @ es])"
        using step(1)[OF init es True] by simp
      ultimately show ?thesis using that by blast
    next
      case False
      with ret opn Op es
      have "drain ?b (batch @ es) tasks de dwe q = Returned (b', batch', tasks', rest)"
        by (simp add: drain_Op del: drain.simps)
      moreover have "I [d] ?b (batch @ es) tasks"
        using step(2)[OF init es False] by simp
      ultimately show ?thesis using that by blast
    qed
    obtain pre x where px: "q = pre @ x # rest" "stops_at de dwe pre x"
        "I (d # operations pre) b' batch' tasks'"
      using Cons.IH[of ?b batch1 tasks1 de dwe ?I, OF d opn i1 flush' keep'] by blast
    have "i # q = (Op d # pre) @ x # rest \<and> stops_at de dwe (Op d # pre) x
          \<and> I (operations (Op d # pre)) b' batch' tasks'"
      using px Op by (simp add: stops_at_later)
    then show ?thesis by blast
  qed
qed


lemma wire_of_length: "wire_of d = Some es \<Longrightarrow> length es = 1 \<or> length es = 2"
  by (auto simp add: wire_of_def split: if_splits option.splits)

lemma wire_of_no_create: "wire_of d = Some es \<Longrightarrow> Action ''create'' i j \<notin> set es"
  by (auto simp add: wire_of_def split: if_splits option.splits)

lemma wire_of_create:
  "wire_of d = Some es \<Longrightarrow> op_type d = ''create'' \<Longrightarrow>
   \<exists>body. op_doc d = Some body \<and> es = [Action ''update'' (op_index d) (op_id d), Body body True]"
  by (auto simp add: wire_of_def split: if_splits option.splits)

lemma counter_sum_incr: "sum_list (map snd (incr k d)) = sum_list (map snd d) + 1"
  unfolding incr_def counter_def
  by (induction d) (auto)

lemma gather_Inr: "gather xs = Inr rs \<Longrightarrow> \<forall>x\<in>set xs. \<exists>r. x = Inr r"
proof (induction xs arbitrary: rs)
  case Nil then show ?case by simp
next
  case (Cons x xs)
  then show ?case by (cases x) (auto split: sum.splits)
qed

lemma Bulker_run_Returned:
  assumes "Bulker_run client b q = Returned (b', tasks, rest)"
  obtains batch ltasks where
    "drain (b\<lparr>bulking := True\<rparr>) [] [] False False q = Returned (b', batch, ltasks, rest)"
    "tasks = (if batch = [] then ltasks else ltasks @ [batch])"
    "\<forall>t\<in>set tasks. \<exists>r. batch_bulk client t = Inr r"
proof -
  from assms obtain batch ltasks rs where
    d: "drain (b\<lparr>bulking := True\<rparr>) [] [] False False q = Returned (b', batch, ltasks, rest)"
    and t: "tasks = (if batch = [] then ltasks else ltasks @ [batch])"
    and g: "gather (map (batch_bulk client) tasks) = Inr rs"
    by (auto simp add: Bulker_run_def Let_def split: outcome.splits sum.splits if_splits)
  from gather_Inr[OF g] have "\<forall>t\<in>set tasks. \<exists>r. batch_bulk client t = Inr r" by auto
  with d t show ?thesis using that by blast
qed

lemma sublist_grow: "sublist es t \<Longrightarrow> sublist es (t @ es')"
  by (simp add: sublist_append)

lemma drain_sublist:
  assumes "drain b batch tasks de dwe q = Returned (b', batch', tasks', rest)" "\<not> (de \<and> dwe)"
  shows "\<exists>pre x. q = pre @ x # rest \<and> stops_at de dwe pre x \<and>
     (\<forall>d\<in>set (operations pre). \<exists>es. wire_of d = Some es \<and> (\<exists>t\<in>set (tasks' @ [batch']). sublist es t))"
proof (rule drain_rule[OF assms, where I = "\<lambda>ds b batch tasks. \<forall>d\<in>set ds. \<exists>es. wire_of d = Some es \<and> (\<exists>t\<in>set (tasks @ [batch]). sublist es t)"])
  fix ds :: "operation list" and b :: bulker and batch tasks d es
  assume I: "\<forall>d\<in>set ds. \<exists>es. wire_of d = Some es \<and> (\<exists>t\<in>set (tasks @ [batch]). sublist es t)"
    and es: "wire_of d = Some es"
  have old: "\<exists>es'. wire_of d' = Some es' \<and> (sublist es' (batch @ es) \<or> (\<exists>t\<in>set tasks. sublist es' t))"
    if "d' \<in> set ds" for d'
    using I that by (auto intro: sublist_grow)
  have new: "sublist es (batch @ es)" by simp
  show "\<forall>d\<in>set (ds @ [d]). \<exists>es'. wire_of d = Some es' \<and> (\<exists>t\<in>set ((tasks @ [batch @ es]) @ [[]]). sublist es' t)"
    using old new es by auto
  show "\<forall>d\<in>set (ds @ [d]). \<exists>es'. wire_of d = Some es' \<and> (\<exists>t\<in>set (tasks @ [batch @ es]). sublist es' t)"
    using old new es by auto
qed simp

lemma drain_no_create:
  assumes "drain b batch tasks de dwe q = Returned (b', batch', tasks', rest)" "\<not> (de \<and> dwe)"
    and "\<forall>t\<in>set (tasks @ [batch]). Action ''create'' i j \<notin> set t"
  shows "\<forall>t\<in>set (tasks' @ [batch']). Action ''create'' i j \<notin> set t"
proof -
  let ?I = "\<lambda>(ds::operation list) (b::bulker) (batch::wire list) (tasks::wire list list).
      \<forall>t\<in>set (tasks @ [batch]). Action ''create'' i j \<notin> set t"
  have "\<exists>pre x. q = pre @ x # rest \<and> stops_at de dwe pre x \<and> ?I (operations pre) b' batch' tasks'"
  proof (rule drain_rule[OF assms(1,2), where I = ?I])
    show "?I [] b batch tasks" using assms(3) .
  next
    fix ds and b1 :: bulker and batch1 :: "wire list" and tasks1 :: "wire list list" and d es
    assume "?I ds b1 batch1 tasks1" "wire_of d = Some es"
    then show "?I (ds @ [d]) (b1\<lparr>ops := incr (op_type d) (ops b1)\<rparr>) [] (tasks1 @ [batch1 @ es])"
      using wire_of_no_create[of d es i j] by simp
  next
    fix ds and b1 :: bulker and batch1 :: "wire list" and tasks1 :: "wire list list" and d es
    assume "?I ds b1 batch1 tasks1" "wire_of d = Some es"
    then show "?I (ds @ [d]) (b1\<lparr>ops := incr (op_type d) (ops b1)\<rparr>) (batch1 @ es) tasks1"
      using wire_of_no_create[of d es i j] by simp
  qed
  then show ?thesis by blast
qed

lemma drain_sizes:
  assumes "drain b batch tasks de dwe q = Returned (b', batch', tasks', rest)" "\<not> (de \<and> dwe)"
    and "length batch < chunk_size b * 2"
    and "\<forall>t\<in>set tasks. chunk_size b * 2 \<le> length t \<and> length t \<le> chunk_size b * 2 + 1"
  shows "chunk_size b' = chunk_size b \<and> length batch' < chunk_size b * 2 \<and>
    (\<forall>t\<in>set tasks'. chunk_size b * 2 \<le> length t \<and> length t \<le> chunk_size b * 2 + 1)"
proof -
  let ?c = "chunk_size b"
  let ?I = "\<lambda>(ds::operation list) (b'::bulker) (batch::wire list) (tasks::wire list list). chunk_size b' = ?c \<and> length batch < ?c * 2 \<and>
      (\<forall>t\<in>set tasks. ?c * 2 \<le> length t \<and> length t \<le> ?c * 2 + 1)"
  have "\<exists>pre x. q = pre @ x # rest \<and> stops_at de dwe pre x \<and> ?I (operations pre) b' batch' tasks'"
  proof (rule drain_rule[OF assms(1,2), where I = ?I])
    show "?I [] b batch tasks" using assms(3,4) by simp
  next
    fix ds and b1 :: bulker and batch1 :: "wire list" and tasks1 :: "wire list list" and d es
    assume "?I ds b1 batch1 tasks1" "wire_of d = Some es" "chunk_size b1 * 2 \<le> length (batch1 @ es)"
    then show "?I (ds @ [d]) (b1\<lparr>ops := incr (op_type d) (ops b1)\<rparr>) [] (tasks1 @ [batch1 @ es])"
      using wire_of_length[of d es] by auto
  next
    fix ds and b1 :: bulker and batch1 :: "wire list" and tasks1 :: "wire list list" and d es
    assume "?I ds b1 batch1 tasks1" "wire_of d = Some es" "\<not> chunk_size b1 * 2 \<le> length (batch1 @ es)"
    then show "?I (ds @ [d]) (b1\<lparr>ops := incr (op_type d) (ops b1)\<rparr>) (batch1 @ es) tasks1"
      by auto
  qed
  then show ?thesis by blast
qed

lemma drain_counts:
  assumes "drain b batch tasks de dwe q = Returned (b', batch', tasks', rest)" "\<not> (de \<and> dwe)"
  shows "\<exists>pre x. q = pre @ x # rest \<and> stops_at de dwe pre x \<and>
     sum_list (map snd (ops b')) = sum_list (map snd (ops b)) + length (operations pre)"
  by (rule drain_rule[OF assms, where I = "\<lambda>ds b' batch tasks. sum_list (map snd (ops b')) = sum_list (map snd (ops b)) + length ds"])
     (simp_all add: counter_sum_incr)

lemma drain_nonempty:
  assumes "drain b batch tasks de dwe q = Returned (b', batch', tasks', rest)" "\<not> (de \<and> dwe)"
    and "[] \<notin> set tasks"
  shows "[] \<notin> set tasks'"
proof -
  let ?I = "\<lambda>(ds::operation list) (b::bulker) (batch::wire list) (tasks::wire list list).
      [] \<notin> set tasks"
  have "\<exists>pre x. q = pre @ x # rest \<and> stops_at de dwe pre x \<and> ?I (operations pre) b' batch' tasks'"
  proof (rule drain_rule[OF assms(1,2), where I = ?I])
    show "?I [] b batch tasks" using assms(3) .
  next
    fix ds and b1 :: bulker and batch1 :: "wire list" and tasks1 :: "wire list list" and d es
    assume "?I ds b1 batch1 tasks1" "wire_of d = Some es"
    then show "?I (ds @ [d]) (b1\<lparr>ops := incr (op_type d) (ops b1)\<rparr>) [] (tasks1 @ [batch1 @ es])"
      using wire_of_length[of d es] by auto
  next
    fix ds and b1 :: bulker and batch1 :: "wire list" and tasks1 :: "wire list list" and d es
    assume "?I ds b1 batch1 tasks1"
    then show "?I (ds @ [d]) (b1\<lparr>ops := incr (op_type d) (ops b1)\<rparr>) (batch1 @ es) tasks1"
      by simp
  qed
  then show ?thesis by blast
qed

lemma drain_Blocked:
  "drain b batch tasks de dwe q = Blocked \<Longrightarrow> \<not> (de \<and> dwe) \<Longrightarrow>
   \<not> ((de \<or> END_DOCS \<in> set q) \<and> (dwe \<or> END_DOWNLOADS \<in> set q))"
proof (induction q arbitrary: b batch tasks de dwe)
  case Nil
  then show ?case by simp
next
  case (Cons i q)
  show ?case
  proof (cases i)
    case END_DOCS
    with Cons.prems have "\<not> dwe" "drain b batch tasks True dwe q = Blocked"
      by (auto simp add: drain_END_DOCS simp del: drain.simps split: if_splits)
    with Cons.IH[of b batch tasks True dwe] END_DOCS show ?thesis by simp
  next
    case END_DOWNLOADS
    with Cons.prems have "\<not> de" "drain b batch tasks de True q = Blocked"
      by (auto simp add: drain_END_DOWNLOADS simp del: drain.simps split: if_splits)
    with Cons.IH[of b batch tasks de True] END_DOWNLOADS show ?thesis by simp
  next
    case (Op d)
    with Cons.prems obtain b1 batch1 tasks1 where "drain b1 batch1 tasks1 de dwe q = Blocked"
      by (auto simp add: drain_Op simp del: drain.simps split: if_splits option.splits)
    with Cons.IH[of b1 batch1 tasks1 de dwe] Cons.prems(2) Op show ?thesis by simp
  qed
qed

lemma operations_set: "d \<in> set (operations xs) \<longleftrightarrow> Op d \<in> set xs"
  by (induction xs rule: operations.induct) auto

lemma drain_replicate:
  assumes "wire_of d = Some es" "\<not> (de \<and> dwe)"
  shows "length batch + n * length es < chunk_size b * 2 \<Longrightarrow>
    drain b batch tasks de dwe (replicate n (Op d) @ q) =
    drain (b\<lparr>ops := (incr (op_type d) ^^ n) (ops b)\<rparr>) (batch @ concat (replicate n es)) tasks de dwe q"
proof (induction n arbitrary: b batch)
  case 0
  then show ?case by simp
next
  case (Suc n)
  from Suc.prems have lt: "\<not> chunk_size b * 2 \<le> length (batch @ es)" by simp
  from assms(2) have nd: "(de \<and> dwe) = False" by simp
  let ?b = "b\<lparr>ops := incr (op_type d) (ops b)\<rparr>"
  have "drain b batch tasks de dwe (replicate (Suc n) (Op d) @ q) =
        drain ?b (batch @ es) tasks de dwe (replicate n (Op d) @ q)"
    using assms(1) lt by (simp add: drain_Op nd del: drain.simps)
  also have "\<dots> = drain (?b\<lparr>ops := (incr (op_type d) ^^ n) (ops ?b)\<rparr>)
       ((batch @ es) @ concat (replicate n es)) tasks de dwe q"
    using Suc.prems by (intro Suc.IH) simp
  finally show ?case by (simp add: funpow_swap1)
qed

lemma wire_of_create_A: "wire_of create_A =
   Some [Action ''update'' ''idx'' ''A'', Body [(''id'', ''A''), (''timestamp'', ''T1'')] True]"
  by (simp add: wire_of_def create_A_def)

lemma wire_of_delete_C: "wire_of delete_C = Some [Action ''delete'' ''idx'' ''C'']"
  by (simp add: wire_of_def delete_C_def)

lemma dispatched_1001:
  "dispatched (Bulker_run accept Bulker queue_1001) =
     [Action ''delete'' ''idx'' ''C'' #
      concat (replicate 499 [Action ''update'' ''idx'' ''A'', Body [(''id'', ''A''), (''timestamp'', ''T1'')] True])
      @ [Action ''update'' ''idx'' ''A'', Body [(''id'', ''A''), (''timestamp'', ''T1'')] True]]"
proof -
  let ?es = "[Action ''update'' ''idx'' ''A'', Body [(''id'', ''A''), (''timestamp'', ''T1'')] True]"
  let ?b0 = "Bulker\<lparr>bulking := True\<rparr>"
  let ?b1 = "?b0\<lparr>ops := incr (op_type delete_C) (ops ?b0)\<rparr>"
  let ?b2 = "?b1\<lparr>ops := (incr (op_type create_A) ^^ 499) (ops ?b1)\<rparr>"
  let ?b3 = "?b2\<lparr>ops := incr (op_type create_A) (ops ?b2)\<rparr>"
  let ?batch = "[Action ''delete'' ''idx'' ''C''] @ concat (replicate 499 ?es)"
  have c: "chunk_size ?b1 = 500" "chunk_size ?b2 = 500" "chunk_size ?b0 = 500"
    by (simp_all add: Bulker_def)
  have len: "length (concat (replicate 499 ?es)) = 998"
    by (simp add: length_concat sum_list_replicate)
  have "drain ?b0 [] [] False False queue_1001 =
        drain ?b1 [Action ''delete'' ''idx'' ''C''] [] False False
          (replicate 499 (Op create_A) @ [Op create_A, END_DOCS, END_DOWNLOADS])"
    unfolding queue_1001_def by (simp add: drain_Op wire_of_delete_C Bulker_def del: drain.simps)
  also have "\<dots> = drain ?b2 ?batch [] False False [Op create_A, END_DOCS, END_DOWNLOADS]"
    by (rule drain_replicate[OF wire_of_create_A]) (simp_all add: Bulker_def)
  also have "\<dots> = drain ?b3 [] [?batch @ ?es] False False [END_DOCS, END_DOWNLOADS]"
    using len by (simp add: drain_Op wire_of_create_A Bulker_def del: drain.simps)
  also have "\<dots> = Returned (?b3, [], [?batch @ ?es], [])"
    by (simp add: drain_END_DOCS drain_END_DOWNLOADS del: drain.simps)
  finally have "drain ?b0 [] [] False False queue_1001 = Returned (?b3, [], [?batch @ ?es], [])" .
  then show ?thesis
    by (simp add: Bulker_run_def dispatched_def accept_def batch_bulk_def)
qed

lemma run_mixed:
  "Bulker_run accept (Bulker\<lparr>chunk_size := 1\<rparr>) queue_mixed =
     Returned (\<lparr>bulking = True, ops = [(''delete'', 2), (''create'', 2)], chunk_size = 1\<rparr>,
       [[Action ''delete'' ''idx'' ''C'', Action ''update'' ''idx'' ''A'',
         Body [(''id'', ''A''), (''timestamp'', ''T1'')] True],
        [Action ''update'' ''idx'' ''A'', Body [(''id'', ''A''), (''timestamp'', ''T1'')] True],
        [Action ''delete'' ''idx'' ''C'']], [])"
  by (simp add: Bulker_run_def Bulker_def queue_mixed_def create_A_def delete_C_def accept_def
      batch_bulk_def incr_def counter_def Let_def)

lemma counter_incr: "counter (incr k d) k' = (if k' = k then counter d k + 1 else counter d k')"
  by (simp add: incr_def counter_def AList.update_conv')

lemma drain_counter:
  assumes "drain b batch tasks de dwe q = Returned (b', batch', tasks', rest)" "\<not> (de \<and> dwe)"
  shows "\<exists>pre x. q = pre @ x # rest \<and> stops_at de dwe pre x \<and>
     counter (ops b') k = counter (ops b) k + length (filter (\<lambda>d. op_type d = k) (operations pre))"
  by (rule drain_rule[OF assms, where I = "\<lambda>ds b' batch tasks.
        counter (ops b') k = counter (ops b) k + length (filter (\<lambda>d. op_type d = k) ds)"])
     (auto simp add: counter_incr)

lemma gather_all: "\<forall>x\<in>set xs. \<exists>r. x = Inr r \<Longrightarrow> \<exists>rs. gather xs = Inr rs"
proof (induction xs)
  case Nil
  then show ?case by simp
next
  case (Cons x xs)
  then obtain r rs where "x = Inr r" "gather xs = Inr rs" by auto
  then show ?case by simp
qed

lemma drain_returns:
  assumes "\<not> (de \<and> dwe)"
    and "de \<or> END_DOCS \<in> set q" and "dwe \<or> END_DOWNLOADS \<in> set q"
    and "\<forall>d. Op d \<in> set q \<longrightarrow> wire_of d \<noteq> None"
  shows "\<exists>r. drain b batch tasks de dwe q = Returned r"
  using assms
proof (induction q arbitrary: b batch tasks de dwe)
  case Nil
  then show ?case by auto
next
  case (Cons i q)
  show ?case
  proof (cases i)
    case END_DOCS
    show ?thesis
    proof (cases dwe)
      case True
      with END_DOCS show ?thesis by (simp add: drain_END_DOCS del: drain.simps)
    next
      case False
      with Cons.prems END_DOCS have "\<exists>r. drain b batch tasks True dwe q = Returned r"
        by (intro Cons.IH) auto
      with False END_DOCS show ?thesis by (simp add: drain_END_DOCS del: drain.simps)
    qed
  next
    case END_DOWNLOADS
    show ?thesis
    proof (cases de)
      case True
      with END_DOWNLOADS show ?thesis by (simp add: drain_END_DOWNLOADS del: drain.simps)
    next
      case False
      with Cons.prems END_DOWNLOADS have "\<exists>r. drain b batch tasks de True q = Returned r"
        by (intro Cons.IH) auto
      with False END_DOWNLOADS show ?thesis by (simp add: drain_END_DOWNLOADS del: drain.simps)
    qed
  next
    case (Op d)
    with Cons.prems obtain es where es: "wire_of d = Some es" by auto
    have ih: "\<exists>r. drain b1 batch1 tasks1 de dwe q = Returned r" for b1 batch1 tasks1
      using Cons.prems Op by (intro Cons.IH) auto
    from Cons.prems(1) have nd: "(de \<and> dwe) = False" by simp
    show ?thesis
      using ih es Op by (simp add: drain_Op nd del: drain.simps)
  qed
qed

lemma run_rest:
  "Bulker_run accept (Bulker\<lparr>chunk_size := 1\<rparr>) queue_rest =
     Returned (\<lparr>bulking = True, ops = [(''delete'', 1), (''create'', 2)], chunk_size = 1\<rparr>,
       [[Action ''delete'' ''idx'' ''C'', Action ''update'' ''idx'' ''A'',
         Body [(''id'', ''A''), (''timestamp'', ''T1'')] True],
        [Action ''update'' ''idx'' ''A'', Body [(''id'', ''A''), (''timestamp'', ''T1'')] True]],
       [Op delete_C])"
  by (simp add: Bulker_run_def Bulker_def queue_rest_def create_A_def delete_C_def accept_def
      batch_bulk_def incr_def counter_def Let_def)

section \<open>One iteration of get\_docs\<close>

lemma enqueue_fields:
  "heap (enqueue w a doc_id l) = heap w"
  "seen_ids (enqueue w a doc_id l) = seen_ids w"
  "clock (enqueue w a doc_id l) = clock w"
  "existing_ids (self (enqueue w a doc_id l)) = existing_ids (self w)"
  "existing_timestamps (self (enqueue w a doc_id l)) = existing_timestamps (self w)"
  "index (self (enqueue w a doc_id l)) = index (self w)"
  "sync_runs (self (enqueue w a doc_id l)) = sync_runs (self w)"
  "total_downloads (self (enqueue w a doc_id l)) = total_downloads (self w)"
  by (simp_all add: enqueue_def put_def Let_def split: option.split)

lemma enqueue_queue:
  "queue (enqueue w a doc_id l) = queue w @ [Op (put_op w doc_id (heap w a))]"
  by (simp add: enqueue_def put_def put_op_def Let_def split: option.split)

lemma enqueue_counts:
  "total_docs_created (self (enqueue w a doc_id l)) + total_docs_updated (self (enqueue w a doc_id l))
     = total_docs_created (self w) + total_docs_updated (self w) + 1"
  by (simp add: enqueue_def put_def Let_def split: option.split)

lemma enqueue_downloads:
  "downloads (enqueue w a doc_id l) =
     downloads w @ (case l of None \<Rightarrow> [] | Some f \<Rightarrow> [Task (f True (map_of (heap w a) ''timestamp''))])"
  by (simp add: enqueue_def put_def Let_def split: option.split)

lemma timestamp_kept:
  "map_of (AList.update ''id'' i (AList.delete ''_id'' d)) ''timestamp'' = map_of d ''timestamp''"
  by (simp add: AList.update_conv' AList.delete_conv')

lemma get_docs_body_unfold:
  "get_docs_body iso_utc w (a, l) =
     (case map_of (heap w a) ''_id'' of
        None \<Rightarrow> Raised KeyError
      | Some doc_id \<Rightarrow>
          if skips w a doc_id then
            (if l = None then Raised TypeError
             else Returned (w\<lparr>heap := (heap w)(a := visited iso_utc w a doc_id),
                              seen_ids := insert doc_id (seen_ids w)\<rparr>))
          else if map_of (heap w a) ''timestamp'' = None then
            Returned (enqueue (w\<lparr>seen_ids := insert doc_id (seen_ids w),
                                 heap := (heap w)(a := visited iso_utc w a doc_id),
                                 clock := clock w + 1\<rparr>) a doc_id l)
          else
            Returned (enqueue (w\<lparr>heap := (heap w)(a := visited iso_utc w a doc_id),
                                 seen_ids := insert doc_id (seen_ids w)\<rparr>) a doc_id l))"
proof (cases "map_of (heap w a) ''_id''")
  case None
  then show ?thesis by (simp add: get_docs_body_def received_def classify_def)
next
  case (Some doc_id)
  show ?thesis
  proof (cases "map_of (heap w a) ''timestamp''")
    case None
    with Some show ?thesis
      by (simp add: get_docs_body_def received_def classify_def Let_def timestamp_kept visited_def skips_def)
  next
    case (Some ts)
    with \<open>map_of (heap w a) ''_id'' = Some doc_id\<close> show ?thesis
      by (simp add: get_docs_body_def received_def classify_def Let_def timestamp_kept visited_def skips_def
          split: option.split)
  qed
qed

lemma visited_no_id: "map_of (visited iso_utc w a i) ''_id'' = None"
  by (simp add: visited_def Let_def AList.update_conv' AList.delete_conv')

lemma visited_id: "map_of (visited iso_utc w a i) ''id'' = Some i"
  by (simp add: visited_def Let_def AList.update_conv' AList.delete_conv')

lemma visited_timestamp:
  "map_of (visited iso_utc w a i) ''timestamp'' =
     (case map_of (heap w a) ''timestamp'' of None \<Rightarrow> Some (iso_utc (clock w)) | Some t \<Rightarrow> Some t)"
  by (simp add: visited_def Let_def AList.update_conv' AList.delete_conv' split: option.split)

lemma body_id:
  "get_docs_body iso_utc w (a, l) = Returned w' \<Longrightarrow> \<exists>i. map_of (heap w a) ''_id'' = Some i"
  by (simp add: get_docs_body_unfold split: option.splits)

lemma body_heap:
  "get_docs_body iso_utc w (a, l) = Returned w' \<Longrightarrow> map_of (heap w a) ''_id'' = Some i \<Longrightarrow>
   heap w' = (heap w)(a := visited iso_utc w a i)"
  by (auto simp add: get_docs_body_unfold enqueue_fields split: if_splits)

lemma body_seen:
  "get_docs_body iso_utc w (a, l) = Returned w' \<Longrightarrow> map_of (heap w a) ''_id'' = Some i \<Longrightarrow>
   seen_ids w' = insert i (seen_ids w)"
  by (auto simp add: get_docs_body_unfold enqueue_fields split: if_splits)

lemma body_self:
  assumes "get_docs_body iso_utc w (a, l) = Returned w'"
  shows "existing_ids (self w') = existing_ids (self w)"
    and "existing_timestamps (self w') = existing_timestamps (self w)"
    and "index (self w') = index (self w)"
    and "sync_runs (self w') = sync_runs (self w)"
    and "total_downloads (self w') = total_downloads (self w)"
  using assms
  by (auto simp add: get_docs_body_unfold enqueue_fields split: if_splits option.splits)

lemma body_skip:
  assumes "get_docs_body iso_utc w (a, l) = Returned w'" "map_of (heap w a) ''_id'' = Some i"
    and "skips w a i"
  shows "queue w' = queue w" and "downloads w' = downloads w" and "l \<noteq> None"
    and "total_docs_created (self w') = total_docs_created (self w)"
    and "total_docs_updated (self w') = total_docs_updated (self w)"
  using assms
  by (auto simp add: get_docs_body_unfold split: if_splits)

lemma body_put:
  assumes "get_docs_body iso_utc w (a, l) = Returned w'" "map_of (heap w a) ''_id'' = Some i"
    and "\<not> skips w a i"
  shows "queue w' = queue w @ [Op (put_op w i (visited iso_utc w a i))]"
    and "total_docs_created (self w') + total_docs_updated (self w')
           = total_docs_created (self w) + total_docs_updated (self w) + 1"
    and "downloads w' = downloads w @
           (case l of None \<Rightarrow> []
            | Some f \<Rightarrow> [Task (f True (map_of (visited iso_utc w a i) ''timestamp''))])"
  using assms
  by (auto simp add: get_docs_body_unfold enqueue_queue enqueue_counts enqueue_downloads put_op_def
      split: if_splits option.split)

lemma enqueue_each:
  "total_docs_created (self (enqueue w a i l)) =
     total_docs_created (self w) + (if i \<in> set (existing_ids (self w)) then 0 else 1)"
  "total_docs_updated (self (enqueue w a i l)) =
     total_docs_updated (self w) + (if i \<in> set (existing_ids (self w)) then 1 else 0)"
  by (simp_all add: enqueue_def put_def Let_def split: option.split)

lemma body_put_each:
  assumes "get_docs_body iso_utc w (a, l) = Returned w'" "map_of (heap w a) ''_id'' = Some i"
    and "\<not> skips w a i"
  shows "total_docs_created (self w') =
           total_docs_created (self w) + (if i \<in> set (existing_ids (self w)) then 0 else 1)"
    and "total_docs_updated (self w') =
           total_docs_updated (self w) + (if i \<in> set (existing_ids (self w)) then 1 else 0)"
  using assms
  by (auto simp add: get_docs_body_unfold enqueue_each split: if_splits)

section \<open>The loop of get\_docs\<close>

lemma loop_Cons:
  assumes "get_docs_loop iso_utc w (p # generator) = Returned w'"
  obtains w1 where "get_docs_body iso_utc w p = Returned w1"
    and "get_docs_loop iso_utc w1 generator = Returned w'"
  using assms by (auto split: outcome.splits)

lemma loop_self:
  assumes "get_docs_loop iso_utc w generator = Returned w'"
  shows "existing_ids (self w') = existing_ids (self w)
    \<and> existing_timestamps (self w') = existing_timestamps (self w)
    \<and> index (self w') = index (self w)
    \<and> sync_runs (self w') = sync_runs (self w)
    \<and> total_downloads (self w') = total_downloads (self w)"
  using assms
proof (induction generator arbitrary: w)
  case Nil
  then show ?case by simp
next
  case (Cons p generator)
  from Cons.prems obtain w1 where b: "get_docs_body iso_utc w p = Returned w1"
    and l: "get_docs_loop iso_utc w1 generator = Returned w'" by (rule loop_Cons)
  obtain a f where p: "p = (a, f)" by (cases p)
  from body_self[OF b[unfolded p]] Cons.IH[OF l] show ?case by simp
qed

lemma loop_frame:
  assumes "get_docs_loop iso_utc w generator = Returned w'"
  shows "distinct (map fst generator)
    \<and> (\<forall>a\<in>set (map fst generator). map_of (heap w a) ''_id'' \<noteq> None \<and> map_of (heap w' a) ''_id'' = None)
    \<and> (\<forall>a. a \<notin> set (map fst generator) \<longrightarrow> heap w' a = heap w a)"
  using assms
proof (induction generator arbitrary: w)
  case Nil
  then show ?case by simp
next
  case (Cons p generator)
  from Cons.prems obtain w1 where b: "get_docs_body iso_utc w p = Returned w1"
    and l: "get_docs_loop iso_utc w1 generator = Returned w'" by (rule loop_Cons)
  obtain a f where p: "p = (a, f)" by (cases p)
  from body_id[OF b[unfolded p]] obtain i where i: "map_of (heap w a) ''_id'' = Some i" by blast
  have h1: "heap w1 = (heap w)(a := visited iso_utc w a i)" by (rule body_heap[OF b[unfolded p] i])
  have a1: "map_of (heap w1 a) ''_id'' = None" by (simp add: h1 visited_no_id)
  note ih = Cons.IH[OF l]
  from ih a1 have fresh: "a \<notin> set (map fst generator)" by blast
  have "distinct (map fst (p # generator))" using ih fresh p by simp
  moreover have "map_of (heap w b) ''_id'' \<noteq> None \<and> map_of (heap w' b) ''_id'' = None"
    if "b \<in> set (map fst (p # generator))" for b
  proof (cases "b = a")
    case True
    with ih fresh a1 i show ?thesis by simp
  next
    case False
    with that p have "b \<in> set (map fst generator)" by simp
    with ih have "map_of (heap w1 b) ''_id'' \<noteq> None" "map_of (heap w' b) ''_id'' = None"
      by blast+
    moreover have "heap w1 b = heap w b" using False h1 by simp
    ultimately show ?thesis by simp
  qed
  moreover have "heap w' b = heap w b" if "b \<notin> set (map fst (p # generator))" for b
  proof -
    from that p have "b \<noteq> a" "b \<notin> set (map fst generator)" by simp_all
    with ih have "heap w' b = heap w1 b" by blast
    with \<open>b \<noteq> a\<close> h1 show ?thesis by simp
  qed
  ultimately show ?case by blast
qed

lemma loop_fresh:
  assumes "get_docs_loop iso_utc w ((a, f) # generator) = Returned w'"
    and "get_docs_body iso_utc w (a, f) = Returned w1"
  shows "yielded (heap w1) generator = yielded (heap w) generator"
proof -
  from loop_frame[OF assms(1)] have "a \<notin> set (map fst generator)" by simp
  moreover from body_id[OF assms(2)] obtain i where i: "map_of (heap w a) ''_id'' = Some i" by blast
  note body_heap[OF assms(2) i]
  ultimately show ?thesis by (auto simp add: yielded_def)
qed

lemma loop_seen:
  assumes "get_docs_loop iso_utc w generator = Returned w'"
  shows "seen_ids w' = seen_ids w \<union> {i. Some i \<in> set (yielded (heap w) generator)}"
  using assms
proof (induction generator arbitrary: w)
  case Nil
  then show ?case by (simp add: yielded_def)
next
  case (Cons p generator)
  from Cons.prems obtain w1 where b: "get_docs_body iso_utc w p = Returned w1"
    and l: "get_docs_loop iso_utc w1 generator = Returned w'" by (rule loop_Cons)
  obtain a f where p: "p = (a, f)" by (cases p)
  from body_id[OF b[unfolded p]] obtain i where i: "map_of (heap w a) ''_id'' = Some i" by blast
  have y: "yielded (heap w1) generator = yielded (heap w) generator"
    using loop_fresh[OF Cons.prems[unfolded p] b[unfolded p]] .
  have "seen_ids w' = insert i (seen_ids w) \<union> {i. Some i \<in> set (yielded (heap w) generator)}"
    using Cons.IH[OF l] body_seen[OF b[unfolded p] i] y by simp
  moreover have "yielded (heap w) (p # generator) = Some i # yielded (heap w) generator"
    using i p by (simp add: yielded_def)
  ultimately show ?case by auto
qed

lemma delete_unseen_fields:
  "heap (delete_unseen w ids) = heap w"
  "self (delete_unseen w ids) = self w"
  "seen_ids (delete_unseen w ids) = seen_ids w"
  "downloads (delete_unseen w ids) = downloads w"
  by (induction w ids rule: delete_unseen.induct) (simp_all add: put_def)

lemma delete_unseen_queue:
  "queue (delete_unseen w ids) =
     queue w @ map (\<lambda>i. Op (delete_op (index (self w)) i)) (filter (\<lambda>i. i \<notin> seen_ids w) ids)"
  by (induction w ids rule: delete_unseen.induct) (simp_all add: put_def delete_op_def)

lemma put_op_is_put: "is_put (Op (put_op w i doc))"
  by (simp add: is_put_def put_op_def)

lemma put_op_is_put_for: "is_put_for j (Op (put_op w i doc)) \<longleftrightarrow> j = i"
  by (auto simp add: is_put_for_def put_op_def)

lemma loop_queue:
  assumes "get_docs_loop iso_utc w generator = Returned w'"
  shows "\<exists>ups. queue w' = queue w @ ups \<and> (\<forall>x\<in>set ups. is_put x)
     \<and> total_docs_created (self w') + total_docs_updated (self w')
         = total_docs_created (self w) + total_docs_updated (self w) + length ups
     \<and> (\<forall>i. length (filter (is_put_for i) ups) \<le> count_list (yielded (heap w) generator) (Some i))"
  using assms
proof (induction generator arbitrary: w)
  case Nil
  then show ?case by simp
next
  case (Cons p generator)
  from Cons.prems obtain w1 where b: "get_docs_body iso_utc w p = Returned w1"
    and l: "get_docs_loop iso_utc w1 generator = Returned w'" by (rule loop_Cons)
  obtain a f where p: "p = (a, f)" by (cases p)
  note b' = b[unfolded p]
  from body_id[OF b'] obtain i where i: "map_of (heap w a) ''_id'' = Some i" by blast
  have y: "yielded (heap w1) generator = yielded (heap w) generator"
    using loop_fresh[OF Cons.prems[unfolded p] b'] .
  have yc: "yielded (heap w) (p # generator) = Some i # yielded (heap w) generator"
    using i p by (simp add: yielded_def)
  from Cons.IH[OF l] obtain ups where ups: "queue w' = queue w1 @ ups" "\<forall>x\<in>set ups. is_put x"
    "total_docs_created (self w') + total_docs_updated (self w')
         = total_docs_created (self w1) + total_docs_updated (self w1) + length ups"
    "\<forall>j. length (filter (is_put_for j) ups) \<le> count_list (yielded (heap w) generator) (Some j)"
    unfolding y by blast
  show ?case
  proof (cases "skips w a i")
    case True
    note s = body_skip[OF b' i True]
    have "queue w' = queue w @ ups" using ups(1) s(1) by simp
    moreover have "total_docs_created (self w') + total_docs_updated (self w')
         = total_docs_created (self w) + total_docs_updated (self w) + length ups"
      using ups(3) s(4,5) by simp
    moreover have "\<forall>j. length (filter (is_put_for j) ups) \<le> count_list (yielded (heap w) (p # generator)) (Some j)"
    proof
      fix j
      from ups(4) have "length (filter (is_put_for j) ups) \<le> count_list (yielded (heap w) generator) (Some j)"
        by blast
      then show "length (filter (is_put_for j) ups) \<le> count_list (yielded (heap w) (p # generator)) (Some j)"
        unfolding yc by simp
    qed
    ultimately show ?thesis using ups(2) by blast
  next
    case False
    note s = body_put[OF b' i False]
    let ?x = "Op (put_op w i (visited iso_utc w a i))"
    have "queue w' = queue w @ (?x # ups)" using ups(1) s(1) by simp
    moreover have "\<forall>x\<in>set (?x # ups). is_put x" using ups(2) by (simp add: put_op_is_put)
    moreover have "total_docs_created (self w') + total_docs_updated (self w')
         = total_docs_created (self w) + total_docs_updated (self w) + length (?x # ups)"
      using ups(3) s(2) by simp
    moreover have "\<forall>j. length (filter (is_put_for j) (?x # ups)) \<le> count_list (yielded (heap w) (p # generator)) (Some j)"
    proof
      fix j
      from ups(4) have "length (filter (is_put_for j) ups) \<le> count_list (yielded (heap w) generator) (Some j)"
        by blast
      then show "length (filter (is_put_for j) (?x # ups)) \<le> count_list (yielded (heap w) (p # generator)) (Some j)"
        unfolding yc by (simp add: put_op_is_put_for)
    qed
    ultimately show ?thesis by blast
  qed
qed

lemma get_docs_Returned:
  assumes "get_docs iso_utc w generator = Returned w'"
  obtains wl where
    "get_docs_loop iso_utc (w\<lparr>self := (self w)\<lparr>sync_runs := True\<rparr>, seen_ids := {}\<rparr>) generator = Returned wl"
    "queue w' = queue wl @ map (\<lambda>i. Op (delete_op (index (self wl)) i))
                    (filter (\<lambda>i. i \<notin> seen_ids wl) (existing_ids (self wl))) @ [END_DOCS]"
    "heap w' = heap wl" "self w' = self wl" "downloads w' = downloads wl @ [END]"
proof -
  from assms obtain wl where
    l: "get_docs_loop iso_utc (w\<lparr>self := (self w)\<lparr>sync_runs := True\<rparr>, seen_ids := {}\<rparr>) generator = Returned wl"
    and w': "w' = put END_DOCS ((delete_unseen wl (existing_ids (self wl)))\<lparr>downloads :=
                 downloads (delete_unseen wl (existing_ids (self wl))) @ [END]\<rparr>)"
    by (auto simp add: get_docs_def Let_def split: outcome.splits)
  have "queue w' = queue wl @ map (\<lambda>i. Op (delete_op (index (self wl)) i))
                    (filter (\<lambda>i. i \<notin> seen_ids wl) (existing_ids (self wl))) @ [END_DOCS]"
    unfolding w' by (simp add: put_def delete_unseen_queue)
  moreover have "heap w' = heap wl" "self w' = self wl" "downloads w' = downloads wl @ [END]"
    unfolding w' by (simp_all add: put_def delete_unseen_fields)
  ultimately show ?thesis using l that by blast
qed

lemma get_docs_seen:
  assumes "get_docs iso_utc w generator = Returned w'"
  shows "seen_ids w' = {i. Some i \<in> set (yielded (heap w) generator)}"
proof -
  from assms obtain wl where
    l: "get_docs_loop iso_utc (w\<lparr>self := (self w)\<lparr>sync_runs := True\<rparr>, seen_ids := {}\<rparr>) generator = Returned wl"
    and w': "w' = put END_DOCS ((delete_unseen wl (existing_ids (self wl)))\<lparr>downloads :=
                 downloads (delete_unseen wl (existing_ids (self wl))) @ [END]\<rparr>)"
    by (auto simp add: get_docs_def Let_def split: outcome.splits)
  have "seen_ids w' = seen_ids wl" unfolding w' by (simp add: put_def delete_unseen_fields)
  with loop_seen[OF l] show ?thesis by simp
qed

lemma get_docs_queue:
  assumes "get_docs iso_utc w generator = Returned w'"
  shows "\<exists>ups. queue w' = queue w @ ups
          @ map (\<lambda>i. Op (delete_op (index (self w)) i))
              (filter (\<lambda>i. Some i \<notin> set (yielded (heap w) generator)) (existing_ids (self w)))
          @ [END_DOCS]
     \<and> (\<forall>x\<in>set ups. is_put x)
     \<and> total_docs_created (self w') + total_docs_updated (self w')
         = total_docs_created (self w) + total_docs_updated (self w) + length ups
     \<and> (\<forall>i. length (filter (is_put_for i) ups) \<le> count_list (yielded (heap w) generator) (Some i))"
proof -
  let ?w0 = "w\<lparr>self := (self w)\<lparr>sync_runs := True\<rparr>, seen_ids := {}\<rparr>"
  from assms obtain wl where l: "get_docs_loop iso_utc ?w0 generator = Returned wl"
    and q: "queue w' = queue wl @ map (\<lambda>i. Op (delete_op (index (self wl)) i))
                    (filter (\<lambda>i. i \<notin> seen_ids wl) (existing_ids (self wl))) @ [END_DOCS]"
    and s: "self w' = self wl"
    by (rule get_docs_Returned)
  from loop_self[OF l] have self: "existing_ids (self wl) = existing_ids (self w)"
    "index (self wl) = index (self w)" by simp_all
  from loop_seen[OF l] have seen: "seen_ids wl = {i. Some i \<in> set (yielded (heap w) generator)}"
    by simp
  from loop_queue[OF l] obtain ups where ups: "queue wl = queue w @ ups" "\<forall>x\<in>set ups. is_put x"
    "total_docs_created (self wl) + total_docs_updated (self wl)
         = total_docs_created (self w) + total_docs_updated (self w) + length ups"
    "\<forall>i. length (filter (is_put_for i) ups) \<le> count_list (yielded (heap w) generator) (Some i)"
    by auto
  have "queue w' = queue w @ ups
          @ map (\<lambda>i. Op (delete_op (index (self w)) i))
              (filter (\<lambda>i. Some i \<notin> set (yielded (heap w) generator)) (existing_ids (self w)))
          @ [END_DOCS]"
    unfolding q self seen ups(1) by simp
  with ups(2,3,4) s show ?thesis by auto
qed

lemma count_list_distinct: "distinct xs \<Longrightarrow> x \<in> set xs \<Longrightarrow> count_list xs x = 1"
  by (induction xs) auto

lemma delete_op_not_put: "\<not> is_put (Op (delete_op idx i))"
  by (simp add: is_put_def delete_op_def)

lemma delete_op_inj: "inj (\<lambda>i. Op (delete_op idx i))"
  by (rule injI) (simp add: delete_op_def)

lemmas eval_defs = get_docs_def get_docs_body_def received_def classify_def enqueue_def put_def start_def Fetcher_def
  get_default_def Let_def now_def

lemma run_unchanged:
  "\<exists>w'. get_docs now (start [''A''] [(''A'', ''T1'')] heap_unchanged) [(0, Some no_attachment)] = Returned w'
     \<and> queue w' = [END_DOCS]"
  by (simp add: eval_defs heap_unchanged_def)

lemma run_changed:
  "\<exists>w'. get_docs now (start [''A'', ''B''] [(''A'', ''T1''), (''B'', ''T2'')] heap_changed) [(0, None)] = Returned w'
     \<and> queue w' = [Op \<lparr>op_type = ''update'', op_index = ''idx'', op_id = ''A'',
                        op_doc = Some [(''timestamp'', ''T9''), (''id'', ''A'')],
                        op_doc_as_upsert = Some True\<rparr>,
                    Op (delete_op ''idx'' ''B''), END_DOCS]
     \<and> heap w' 0 = [(''timestamp'', ''T9''), (''id'', ''A'')]"
  by (simp add: eval_defs heap_changed_def delete_op_def)


lemma get_docs_deletes:
  assumes "get_docs iso_utc w generator = Returned w'"
    and "distinct (existing_ids (self w))"
  shows "\<exists>ups dels. queue w' = queue w @ ups @ dels @ [END_DOCS]
      \<and> (\<forall>x\<in>set ups. is_put x)
      \<and> dels = map (\<lambda>i. Op (delete_op (index (self w)) i))
                 (filter (\<lambda>i. Some i \<notin> set (yielded (heap w) generator)) (existing_ids (self w)))
      \<and> (\<forall>i\<in>set (existing_ids (self w)). Some i \<notin> set (yielded (heap w) generator) \<longrightarrow>
            count_list (ups @ dels @ [END_DOCS]) (Op (delete_op (index (self w)) i)) = 1)"
proof -
  let ?f = "\<lambda>i. Op (delete_op (index (self w)) i)"
  let ?ids = "filter (\<lambda>i. Some i \<notin> set (yielded (heap w) generator)) (existing_ids (self w))"
  from get_docs_queue[OF assms(1)] obtain ups where
    q: "queue w' = queue w @ ups @ map ?f ?ids @ [END_DOCS]" and ups: "\<forall>x\<in>set ups. is_put x" by blast
  have "count_list (ups @ map ?f ?ids @ [END_DOCS]) (?f i) = 1"
    if "i \<in> set (existing_ids (self w))" "Some i \<notin> set (yielded (heap w) generator)" for i
  proof -
    from ups have "?f i \<notin> set ups" using delete_op_not_put by blast
    then have "count_list ups (?f i) = 0" by simp
    moreover have "count_list (map ?f ?ids) (?f i) = count_list ?ids i"
      by (rule count_list_map_conv[OF delete_op_inj])
    moreover have "count_list ?ids i = 1"
      using that assms(2) by (intro count_list_distinct) simp_all
    ultimately show ?thesis by simp
  qed
  with q ups show ?thesis by blast
qed




text \<open>The operations of a pass are those of the documents it does not skip.\<close>

lemma classified_Cons:
  "map_of (h a) ''_id'' = Some i \<Longrightarrow>
   classified ts h ((a, l) # generator) =
     (if map_of (h a) ''timestamp'' = Some (get_default ts i '''') then [] else [i])
     @ classified ts h generator"
  by (simp add: classified_def)

lemma classified_frame:
  "a \<notin> set (map fst generator) \<Longrightarrow> classified ts (h(a := d)) generator = classified ts h generator"
  by (induction generator) (auto simp add: classified_def cong: option.case_cong)



lemma loop_exact:
  assumes "get_docs_loop iso_utc w generator = Returned w'"
  shows "\<exists>ds. queue w' = queue w @ map Op ds
     \<and> map op_id ds = classified (existing_timestamps (self w)) (heap w) generator
     \<and> (\<forall>d\<in>set ds. op_type d = (if op_id d \<in> set (existing_ids (self w)) then ''update'' else ''create''))
     \<and> total_docs_created (self w') =
         total_docs_created (self w) + length (filter (\<lambda>d. op_type d = ''create'') ds)
     \<and> total_docs_updated (self w') =
         total_docs_updated (self w) + length (filter (\<lambda>d. op_type d = ''update'') ds)"
  using assms
proof (induction generator arbitrary: w)
  case Nil
  then show ?case by (simp add: classified_def)
next
  case (Cons p generator)
  from Cons.prems obtain w1 where b: "get_docs_body iso_utc w p = Returned w1"
    and l: "get_docs_loop iso_utc w1 generator = Returned w'" by (rule loop_Cons)
  obtain a f where p: "p = (a, f)" by (cases p)
  note b' = b[unfolded p]
  from body_id[OF b'] obtain i where i: "map_of (heap w a) ''_id'' = Some i" by blast
  from loop_frame[OF Cons.prems[unfolded p]] have fresh: "a \<notin> set (map fst generator)" by simp
  note s = body_self[OF b']
  have cl: "classified (existing_timestamps (self w1)) (heap w1) generator
          = classified (existing_timestamps (self w)) (heap w) generator"
    unfolding s(2) body_heap[OF b' i] using fresh by (rule classified_frame)
  from Cons.IH[OF l] obtain ds where ds: "queue w' = queue w1 @ map Op ds"
    "map op_id ds = classified (existing_timestamps (self w)) (heap w) generator"
    "\<forall>d\<in>set ds. op_type d = (if op_id d \<in> set (existing_ids (self w)) then ''update'' else ''create'')"
    "total_docs_created (self w') =
         total_docs_created (self w1) + length (filter (\<lambda>d. op_type d = ''create'') ds)"
    "total_docs_updated (self w') =
         total_docs_updated (self w1) + length (filter (\<lambda>d. op_type d = ''update'') ds)"
    unfolding cl s(1) by blast
  show ?case
  proof (cases "skips w a i")
    case True
    note k = body_skip[OF b' i True]
    have c: "classified (existing_timestamps (self w)) (heap w) (p # generator)
           = classified (existing_timestamps (self w)) (heap w) generator"
      unfolding p using True by (simp add: classified_Cons[of "heap w" a i, OF i] skips_def)
    have "queue w' = queue w @ map Op ds" using ds(1) k(1) by simp
    moreover have "total_docs_created (self w') =
         total_docs_created (self w) + length (filter (\<lambda>d. op_type d = ''create'') ds)"
      using ds(4) k(4) by simp
    moreover have "total_docs_updated (self w') =
         total_docs_updated (self w) + length (filter (\<lambda>d. op_type d = ''update'') ds)"
      using ds(5) k(5) by simp
    ultimately show ?thesis using ds(2,3) unfolding c by blast
  next
    case False
    note k = body_put[OF b' i False]
    note e = body_put_each[OF b' i False]
    let ?d = "put_op w i (visited iso_utc w a i)"
    have c: "classified (existing_timestamps (self w)) (heap w) (p # generator)
           = i # classified (existing_timestamps (self w)) (heap w) generator"
      unfolding p using False by (simp add: classified_Cons[of "heap w" a i, OF i] skips_def)
    have ty: "op_type ?d = (if op_id ?d \<in> set (existing_ids (self w)) then ''update'' else ''create'')"
      and id: "op_id ?d = i" by (simp_all add: put_op_def)
    have q: "queue w' = queue w @ map Op (?d # ds)" using ds(1) k(1) by simp
    have m: "map op_id (?d # ds) = classified (existing_timestamps (self w)) (heap w) (p # generator)"
      unfolding c using ds(2) id by simp
    have t: "\<forall>d\<in>set (?d # ds). op_type d = (if op_id d \<in> set (existing_ids (self w)) then ''update'' else ''create'')"
      using ds(3) ty by simp
    have cr: "total_docs_created (self w') =
         total_docs_created (self w) + length (filter (\<lambda>d. op_type d = ''create'') (?d # ds))"
      using ds(4) e(1) by (simp add: put_op_def)
    have up: "total_docs_updated (self w') =
         total_docs_updated (self w) + length (filter (\<lambda>d. op_type d = ''update'') (?d # ds))"
      using ds(5) e(2) by (simp add: put_op_def)
    from q m t cr up show ?thesis by blast
  qed
qed


lemma get_docs_exact:
  assumes "get_docs iso_utc w generator = Returned w'"
  shows "\<exists>ds. queue w' = queue w @ map Op ds
          @ map (\<lambda>i. Op (delete_op (index (self w)) i))
              (filter (\<lambda>i. Some i \<notin> set (yielded (heap w) generator)) (existing_ids (self w)))
          @ [END_DOCS]
     \<and> map op_id ds = classified (existing_timestamps (self w)) (heap w) generator
     \<and> (\<forall>d\<in>set ds. op_type d = (if op_id d \<in> set (existing_ids (self w)) then ''update'' else ''create''))
     \<and> total_docs_created (self w') =
         total_docs_created (self w) + length (filter (\<lambda>d. op_type d = ''create'') ds)
     \<and> total_docs_updated (self w') =
         total_docs_updated (self w) + length (filter (\<lambda>d. op_type d = ''update'') ds)"
proof -
  let ?we = "w\<lparr>self := (self w)\<lparr>sync_runs := True\<rparr>, seen_ids := {}\<rparr>"
  from assms obtain wl where l: "get_docs_loop iso_utc ?we generator = Returned wl"
    and q: "queue w' = queue wl @ map (\<lambda>i. Op (delete_op (index (self wl)) i))
                    (filter (\<lambda>i. i \<notin> seen_ids wl) (existing_ids (self wl))) @ [END_DOCS]"
    and s: "self w' = self wl"
    by (rule get_docs_Returned)
  from loop_self[OF l] have self: "existing_ids (self wl) = existing_ids (self w)"
    "index (self wl) = index (self w)" by simp_all
  from loop_seen[OF l] have seen: "seen_ids wl = {i. Some i \<in> set (yielded (heap w) generator)}"
    by simp
  from loop_exact[OF l] obtain ds where ds: "queue wl = queue w @ map Op ds"
    "map op_id ds = classified (existing_timestamps (self w)) (heap w) generator"
    "\<forall>d\<in>set ds. op_type d = (if op_id d \<in> set (existing_ids (self w)) then ''update'' else ''create'')"
    "total_docs_created (self wl) =
         total_docs_created (self w) + length (filter (\<lambda>d. op_type d = ''create'') ds)"
    "total_docs_updated (self wl) =
         total_docs_updated (self w) + length (filter (\<lambda>d. op_type d = ''update'') ds)"
    by auto
  have "queue w' = queue w @ map Op ds
          @ map (\<lambda>i. Op (delete_op (index (self w)) i))
              (filter (\<lambda>i. Some i \<notin> set (yielded (heap w) generator)) (existing_ids (self w)))
          @ [END_DOCS]"
    unfolding q self seen ds(1) by simp
  with ds(2,3,4,5) show ?thesis unfolding s by blast
qed

section \<open>The queue between Fetcher and Bulker\<close>

lemma interleave_filter:
  "length (filter P (interleave s xs ys)) = length (filter P xs) + length (filter P ys)"
  by (induction s xs ys rule: interleave.induct) simp_all

lemma interleave_count:
  "count_list (interleave s xs ys) z = count_list xs z + count_list ys z"
  by (induction s xs ys rule: interleave.induct) simp_all

lemma interleave_operations:
  "length (operations (interleave s xs ys)) = length (operations xs) + length (operations ys)"
proof (induction s xs ys rule: interleave.induct)
  case (3 x xs y ys)
  show ?case using operations_append[of "x # xs" "y # ys"] by simp
next
  case (4 s x xs y ys)
  then show ?case by (cases x) simp_all
next
  case (5 s x xs y ys)
  then show ?case by (cases y) simp_all
qed simp_all

lemma interleave_Nil: "interleave s xs ys = [] \<longleftrightarrow> xs = [] \<and> ys = []"
  by (induction s xs ys rule: interleave.induct) simp_all

lemma interleave_last:
  "xs \<noteq> [] \<Longrightarrow> ys \<noteq> [] \<Longrightarrow>
   last (interleave s xs ys) = last xs \<or> last (interleave s xs ys) = last ys"
proof (induction s xs ys rule: interleave.induct)
  case (4 s x xs y ys)
  then show ?case by (cases xs) (auto simp add: interleave_Nil)
next
  case (5 s x xs y ys)
  then show ?case by (cases ys) (auto simp add: interleave_Nil)
qed simp_all

lemma get_attachments_Returned:
  assumes "get_attachments w dls = Returned w'" and "sync_runs (self w)"
  shows "\<exists>atts. queue w' = queue w @ map Op atts @ [END_DOWNLOADS]
     \<and> (\<forall>d\<in>set atts. op_type d = ''update'')
     \<and> total_downloads (self w') = total_downloads (self w) + length atts
     \<and> total_docs_created (self w') = total_docs_created (self w)
     \<and> total_docs_updated (self w') = total_docs_updated (self w)"
  using assms
proof (induction w dls rule: get_attachments.induct)
  case (1 w)
  then show ?case by simp
next
  case (2 w coro rest)
  show ?case
  proof (cases coro)
    case END
    with "2.prems" have "w' = put END_DOWNLOADS w" by simp
    then have "queue w' = queue w @ map Op [] @ [END_DOWNLOADS] \<and> (\<forall>d\<in>set []. op_type d = ''update'')
      \<and> total_downloads (self w') = total_downloads (self w) + length ([]::operation list)
      \<and> total_docs_created (self w') = total_docs_created (self w)
      \<and> total_docs_updated (self w') = total_docs_updated (self w)"
      by (simp add: put_def)
    then show ?thesis by blast
  next
    case (Task data)
    show ?thesis
    proof (cases data)
      case None
      with Task "2.prems" have "get_attachments w rest = Returned w'" by simp
      from "2.IH"(1)[OF _ Task None this] "2.prems"(2) show ?thesis by simp
    next
      case (Some fields)
      let ?w1 = "w\<lparr>self := (self w)\<lparr>total_downloads := total_downloads (self w) + 1\<rparr>\<rparr>"
      from Some Task "2.prems" obtain i where i: "map_of fields ''_id'' = Some i"
        by (auto simp add: Let_def split: option.splits)
      let ?d = "\<lparr>op_type = ''update'', op_index = index (self ?w1), op_id = i,
                 op_doc = Some (AList.delete ''_id'' fields), op_doc_as_upsert = Some True\<rparr>"
      from Some Task "2.prems" i have r: "get_attachments (put (Op ?d) ?w1) rest = Returned w'"
        by (simp add: Let_def)
      have s: "sync_runs (self (put (Op ?d) ?w1))" using "2.prems"(2) by (simp add: put_def)
      from "2.IH"(2)[OF _ Task Some refl i r s] "2.prems"(2)
      obtain atts where a: "queue w' = queue (put (Op ?d) ?w1) @ map Op atts @ [END_DOWNLOADS]"
        "\<forall>d\<in>set atts. op_type d = ''update''"
        "total_downloads (self w') = total_downloads (self (put (Op ?d) ?w1)) + length atts"
        "total_docs_created (self w') = total_docs_created (self (put (Op ?d) ?w1))"
        "total_docs_updated (self w') = total_docs_updated (self (put (Op ?d) ?w1))"
        by auto
      have "queue w' = queue w @ map Op (?d # atts) @ [END_DOWNLOADS]
        \<and> (\<forall>d\<in>set (?d # atts). op_type d = ''update'')
        \<and> total_downloads (self w') = total_downloads (self w) + length (?d # atts)
        \<and> total_docs_created (self w') = total_docs_created (self w)
        \<and> total_docs_updated (self w') = total_docs_updated (self w)"
        using a by (simp add: put_def)
      then show ?thesis by blast
    qed
  qed
qed

lemma get_docs_self:
  assumes "get_docs iso_utc w generator = Returned w'"
  shows "sync_runs (self w')" and "total_downloads (self w') = total_downloads (self w)"
    and "index (self w') = index (self w)" and "existing_ids (self w') = existing_ids (self w)"
proof -
  let ?w0 = "w\<lparr>self := (self w)\<lparr>sync_runs := True\<rparr>, seen_ids := {}\<rparr>"
  from assms obtain wl where lp: "get_docs_loop iso_utc ?w0 generator = Returned wl"
    and s: "self w' = self wl" by (rule get_docs_Returned)
  from loop_self[OF lp] s show "sync_runs (self w')"
    and "total_downloads (self w') = total_downloads (self w)"
    and "index (self w') = index (self w)" and "existing_ids (self w') = existing_ids (self w)"
    by simp_all
qed

lemma count_list_pos: "x \<in> set xs \<Longrightarrow> 0 < count_list xs x"
  by (induction xs) auto

lemma operations_all: "\<forall>x\<in>set xs. x \<noteq> END_DOCS \<and> x \<noteq> END_DOWNLOADS \<Longrightarrow>
   length (operations xs) = length xs"
  by (induction xs rule: operations.induct) simp_all

lemma drain_all:
  assumes "drain b batch tasks False False q = Returned (b', batch', tasks', rest)"
    and "count_list q END_DOCS = 1" and "count_list q END_DOWNLOADS = 1"
    and "q \<noteq> []" and "last q = END_DOCS \<or> last q = END_DOWNLOADS"
  shows "rest = [] \<and> sum_list (map snd (ops b')) = sum_list (map snd (ops b)) + length (operations q)"
proof -
  from drain_counts[OF assms(1)] obtain pre x where q: "q = pre @ x # rest"
    and st: "stops_at False False pre x"
    and n: "sum_list (map snd (ops b')) = sum_list (map snd (ops b)) + length (operations pre)"
    by auto
  from st have x: "x = END_DOCS \<or> x = END_DOWNLOADS"
    and m: "END_DOCS \<in> set (pre @ [x])" "END_DOWNLOADS \<in> set (pre @ [x])"
    by (simp_all add: stops_at_def)
  have rest: "rest = []"
  proof (rule ccontr)
    assume ne: "rest \<noteq> []"
    with q have "last q = last rest" by simp
    with ne have "last q \<in> set rest" by simp
    then have pos: "0 < count_list rest (last q)" by (rule count_list_pos)
    have pos': "0 < count_list (pre @ [x]) (last q)"
      using assms(5) m by (auto intro: count_list_pos)
    have split: "count_list q (last q) = count_list (pre @ [x]) (last q) + count_list rest (last q)"
      by (subst (1) q) simp
    have "2 \<le> count_list q (last q)" using pos pos' split by linarith
    with assms(2,3,5) show False by auto
  qed
  have "operations q = operations pre"
    using q rest x by (auto simp add: operations_append)
  with n rest show ?thesis by simp
qed

lemma Fetcher_run_queue:
  assumes "Fetcher_run iso_utc sched w generator = Returned w3" and "queue w = []"
  shows "count_list (queue w3) END_DOCS = 1 \<and> count_list (queue w3) END_DOWNLOADS = 1
    \<and> queue w3 \<noteq> [] \<and> (last (queue w3) = END_DOCS \<or> last (queue w3) = END_DOWNLOADS)
    \<and> total_docs_created (self w3) + total_docs_updated (self w3) + total_downloads (self w3)
        + length (filter is_delete (queue w3))
       = total_docs_created (self w) + total_docs_updated (self w) + total_downloads (self w)
        + length (operations (queue w3))"
proof -
  from assms(1) obtain w1 w2 where g: "get_docs iso_utc w generator = Returned w1"
    and a: "get_attachments (w1\<lparr>queue := []\<rparr>) (downloads w1) = Returned w2"
    and w3: "w3 = w2\<lparr>queue := interleave sched (queue w1) (queue w2)\<rparr>"
    by (auto simp add: Fetcher_run_def split: outcome.splits)
  let ?dels = "map (\<lambda>i. Op (delete_op (index (self w)) i))
                (filter (\<lambda>i. Some i \<notin> set (yielded (heap w) generator)) (existing_ids (self w)))"
  from get_docs_queue[OF g] assms(2) obtain ups where
    q1: "queue w1 = ups @ ?dels @ [END_DOCS]" and ups: "\<forall>x\<in>set ups. is_put x"
    and n1: "total_docs_created (self w1) + total_docs_updated (self w1)
         = total_docs_created (self w) + total_docs_updated (self w) + length ups"
    by auto
  note s1 = get_docs_self[OF g]
  from get_attachments_Returned[OF a] s1(1) obtain atts where
    q2: "queue w2 = map Op atts @ [END_DOWNLOADS]" and atts: "\<forall>d\<in>set atts. op_type d = ''update''"
    and n2: "total_downloads (self w2) = total_downloads (self w1) + length atts"
      "total_docs_created (self w2) = total_docs_created (self w1)"
      "total_docs_updated (self w2) = total_docs_updated (self w1)"
    by auto
  have body1: "\<forall>x\<in>set (ups @ ?dels). x \<noteq> END_DOCS \<and> x \<noteq> END_DOWNLOADS"
    using ups by (auto simp add: is_put_def)
  have body2: "\<forall>x\<in>set (map Op atts). x \<noteq> END_DOCS \<and> x \<noteq> END_DOWNLOADS" by auto
  have c1: "count_list (queue w1) END_DOCS = 1" "count_list (queue w1) END_DOWNLOADS = 0"
    using body1 unfolding q1 by (auto simp add: count_list_0_iff)
  have c2: "count_list (queue w2) END_DOCS = 0" "count_list (queue w2) END_DOWNLOADS = 1"
    unfolding q2 by (auto simp add: count_list_0_iff)
  have o1: "length (operations (queue w1)) = length ups + length ?dels"
    using operations_all[OF body1] unfolding q1
    by (simp add: operations_append[of "ups @ ?dels" "[END_DOCS]", simplified])
  have o2: "length (operations (queue w2)) = length atts"
    using operations_all[OF body2] unfolding q2 by (simp add: operations_append)
  have d1: "length (filter is_delete (queue w1)) = length ?dels"
  proof -
    have "filter is_delete ups = []" using ups by (auto simp add: is_put_def is_delete_def filter_empty_conv split: item.splits)
    moreover have "filter is_delete ?dels = ?dels" by (simp add: is_delete_def delete_op_def filter_map o_def)
    ultimately show ?thesis unfolding q1 by (simp add: is_delete_def)
  qed
  have d2: "length (filter is_delete (queue w2)) = 0"
    using atts unfolding q2 by (auto simp add: is_delete_def filter_empty_conv)
  have ne: "queue w1 \<noteq> []" "queue w2 \<noteq> []" unfolding q1 q2 by simp_all
  have l: "last (queue w1) = END_DOCS" "last (queue w2) = END_DOWNLOADS" unfolding q1 q2 by simp_all
  have qf: "queue w3 = interleave sched (queue w1) (queue w2)" and sf: "self w3 = self w2"
    unfolding w3 by simp_all
  have "count_list (queue w3) END_DOCS = 1" "count_list (queue w3) END_DOWNLOADS = 1"
    unfolding qf interleave_count using c1 c2 by simp_all
  moreover have "queue w3 \<noteq> []" unfolding qf using ne by (simp add: interleave_Nil)
  moreover have "last (queue w3) = END_DOCS \<or> last (queue w3) = END_DOWNLOADS"
    unfolding qf using interleave_last[OF ne, of sched] l by auto
  moreover have "total_docs_created (self w3) + total_docs_updated (self w3) + total_downloads (self w3)
        + length (filter is_delete (queue w3))
       = total_docs_created (self w) + total_docs_updated (self w) + total_downloads (self w)
        + length (operations (queue w3))"
    unfolding qf sf interleave_filter interleave_operations
    using n1 n2 s1(2) o1 o2 d1 d2 by simp
  ultimately show ?thesis by blast
qed

lemmas sync_defs = async_bulk_def Fetcher_run_def Bulker_run_def Bulker_def incr_def counter_def
  accept_def batch_bulk_def attach_A_def heap_twice_def

text \<open>The operations of each coroutine of the Fetcher, and what the Bulker counts of them.\<close>

lemma operations_map_Op: "operations (map Op ds) = ds"
  by (induction ds) simp_all

lemma is_delete_operations:
  "length (filter is_delete q) = length (filter (\<lambda>d. op_type d = ''delete'') (operations q))"
  by (induction q rule: operations.induct) (simp_all add: is_delete_def)

lemma interleave_operations_filter:
  "length (filter P (operations (interleave s xs ys)))
     = length (filter P (operations xs)) + length (filter P (operations ys))"
proof (induction s xs ys rule: interleave.induct)
  case (3 x xs y ys)
  show ?case using operations_append[of "x # xs" "y # ys"] by simp
next
  case (4 s x xs y ys)
  then show ?case by (cases x) simp_all
next
  case (5 s x xs y ys)
  then show ?case by (cases y) simp_all
qed simp_all

lemma drain_all_counter:
  assumes "drain b batch tasks False False q = Returned (b', batch', tasks', rest)"
    and "count_list q END_DOCS = 1" and "count_list q END_DOWNLOADS = 1"
    and "q \<noteq> []" and "last q = END_DOCS \<or> last q = END_DOWNLOADS"
  shows "counter (ops b') k = counter (ops b) k + length (filter (\<lambda>d. op_type d = k) (operations q))"
proof -
  from drain_all[OF assms] have rest: "rest = []" by simp
  from drain_counter[OF assms(1), of k] obtain pre x where q: "q = pre @ x # rest"
    and st: "stops_at False False pre x"
    and n: "counter (ops b') k = counter (ops b) k + length (filter (\<lambda>d. op_type d = k) (operations pre))"
    by auto
  from st have "x = END_DOCS \<or> x = END_DOWNLOADS" by (simp add: stops_at_def)
  then have "operations q = operations pre" unfolding q rest
    by (auto simp add: operations_append)
  with n show ?thesis by simp
qed

lemma Fetcher_run_parts:
  assumes "Fetcher_run iso_utc sched w generator = Returned w3" and "queue w = []"
  obtains w1 w2 where
       "get_docs iso_utc w generator = Returned w1"
       "get_attachments (w1\<lparr>queue := []\<rparr>) (downloads w1) = Returned w2"
       "queue w3 = interleave sched (queue w1) (queue w2)"
       "self w3 = self w2"
       "\<forall>d\<in>set (operations (queue w2)). op_type d = ''update''"
       "total_downloads (self w2) = total_downloads (self w) + length (operations (queue w2))"
       "total_docs_created (self w2) = total_docs_created (self w)
          + length (filter (\<lambda>d. op_type d = ''create'') (operations (queue w1)))"
       "total_docs_updated (self w2) = total_docs_updated (self w)
          + length (filter (\<lambda>d. op_type d = ''update'') (operations (queue w1)))"
proof -
  from assms(1) obtain w1 w2 where g: "get_docs iso_utc w generator = Returned w1"
    and a: "get_attachments (w1\<lparr>queue := []\<rparr>) (downloads w1) = Returned w2"
    and w3: "w3 = w2\<lparr>queue := interleave sched (queue w1) (queue w2)\<rparr>"
    by (auto simp add: Fetcher_run_def split: outcome.splits)
  let ?ids = "filter (\<lambda>i. Some i \<notin> set (yielded (heap w) generator)) (existing_ids (self w))"
  let ?dels = "map (\<lambda>i. Op (delete_op (index (self w)) i)) ?ids"
  from get_docs_exact[OF g] assms(2) obtain ds where
    q1: "queue w1 = map Op ds @ ?dels @ [END_DOCS]"
    and cr: "total_docs_created (self w1) =
         total_docs_created (self w) + length (filter (\<lambda>d. op_type d = ''create'') ds)"
    and up: "total_docs_updated (self w1) =
         total_docs_updated (self w) + length (filter (\<lambda>d. op_type d = ''update'') ds)"
    by auto
  have dels: "?dels = map Op (map (delete_op (index (self w))) ?ids)" by simp
  have o1: "operations (queue w1) = ds @ map (delete_op (index (self w))) ?ids"
    unfolding q1 dels by (simp add: operations_append operations_map_Op del: map_map)
  have f1: "length (filter (\<lambda>d. op_type d = ''create'') (operations (queue w1)))
          = length (filter (\<lambda>d. op_type d = ''create'') ds)"
    "length (filter (\<lambda>d. op_type d = ''update'') (operations (queue w1)))
          = length (filter (\<lambda>d. op_type d = ''update'') ds)"
    unfolding o1 by (simp_all add: delete_op_def)
  note s1 = get_docs_self[OF g]
  from get_attachments_Returned[OF a] s1(1) obtain atts where
    q2: "queue w2 = map Op atts @ [END_DOWNLOADS]" and atts: "\<forall>d\<in>set atts. op_type d = ''update''"
    and n2: "total_downloads (self w2) = total_downloads (self w1) + length atts"
      "total_docs_created (self w2) = total_docs_created (self w1)"
      "total_docs_updated (self w2) = total_docs_updated (self w1)"
    by auto
  have o2: "operations (queue w2) = atts"
    unfolding q2 by (simp add: operations_append operations_map_Op)
  have q3: "queue w3 = interleave sched (queue w1) (queue w2)" and s3: "self w3 = self w2"
    unfolding w3 by simp_all
  have at: "\<forall>d\<in>set (operations (queue w2)). op_type d = ''update''"
    unfolding o2 by (rule atts)
  have dl: "total_downloads (self w2) = total_downloads (self w) + length (operations (queue w2))"
    unfolding o2 using n2(1) s1(2) by simp
  have c: "total_docs_created (self w2) = total_docs_created (self w)
          + length (filter (\<lambda>d. op_type d = ''create'') (operations (queue w1)))"
    using n2(2) cr f1(1) by simp
  have u: "total_docs_updated (self w2) = total_docs_updated (self w)
          + length (filter (\<lambda>d. op_type d = ''update'') (operations (queue w1)))"
    using n2(3) up f1(2) by simp
  from g a q3 s3 at dl c u show ?thesis by (rule that)
qed

section \<open>Claims about the Bulker\<close>

lemma run_create_A:
  "Bulker_run accept Bulker [Op create_A, END_DOCS, END_DOWNLOADS] =
     Returned (\<lparr>bulking = True, ops = [(''create'', 1)], chunk_size = 500\<rparr>,
       [[Action ''update'' ''idx'' ''A'', Body [(''id'', ''A''), (''timestamp'', ''T1'')] True]], [])"
  by (simp add: Bulker_run_def Bulker_def create_A_def accept_def batch_bulk_def incr_def counter_def)

text \<open>
  C1. Claimed: a create operation is put on the wire with the action \<open>create\<close>. Line 65
  writes the action \<open>update\<close> for \<open>update\<close> and \<open>create\<close> alike, and line 66 sends the
  body as \<open>{"doc": body, "doc_as_upsert": True}\<close>. What holds: in a run that returns, every
  create operation read from the queue has its body with \<open>doc_as_upsert\<close>, right after the
  descriptor \<open>{"update": {"_index", "_id"}}\<close>, inside one dispatched batch, and no
  dispatched batch holds a \<open>create\<close> descriptor for it; the counter \<open>ops["create"]\<close> of
  the Bulker still grows by the number of create operations read.
\<close>

theorem create_sent_as_update:
  assumes "Bulker_run client b q = Returned (b', tasks, rest)"
    and "q = pre @ rest" and "Op d \<in> set pre" and "op_type d = ''create''"
  shows "(\<exists>body t. op_doc d = Some body \<and> t \<in> set tasks
           \<and> sublist [Action ''update'' (op_index d) (op_id d), Body body True] t
           \<and> (\<forall>t'\<in>set tasks. Action ''create'' (op_index d) (op_id d) \<notin> set t'))
       \<and> counter (ops b') ''create''
           = counter (ops b) ''create'' + length (filter (\<lambda>d. op_type d = ''create'') (operations pre))"
proof -
  from assms(1) obtain batch ltasks where
    dr: "drain (b\<lparr>bulking := True\<rparr>) [] [] False False q = Returned (b', batch, ltasks, rest)"
    and ts: "tasks = (if batch = [] then ltasks else ltasks @ [batch])"
    by (rule Bulker_run_Returned)
  from drain_sublist[OF dr] obtain pre' x where
    q: "q = pre' @ x # rest" and st: "stops_at False False pre' x"
    and sub: "\<forall>d\<in>set (operations pre'). \<exists>es. wire_of d = Some es \<and> (\<exists>t\<in>set (ltasks @ [batch]). sublist es t)"
    by auto
  from q assms(2) have pre: "pre = pre' @ [x]" by simp
  from st have x: "x = END_DOCS \<or> x = END_DOWNLOADS" by (simp add: stops_at_def)
  from pre x have opre: "operations pre = operations pre'" by (auto simp add: operations_append)
  from pre x have "d \<in> set (operations pre')" using assms(3) by (auto simp add: operations_set)
  with sub obtain es t where es: "wire_of d = Some es" and t: "t \<in> set (ltasks @ [batch])" "sublist es t"
    by blast
  from wire_of_create[OF es assms(4)] obtain body where
    body: "op_doc d = Some body" "es = [Action ''update'' (op_index d) (op_id d), Body body True]"
    by blast
  from t body have "t \<noteq> []" by auto
  with t ts have "t \<in> set tasks" by (auto split: if_splits)
  moreover have "\<forall>t'\<in>set tasks. Action ''create'' (op_index d) (op_id d) \<notin> set t'"
    using drain_no_create[OF dr, of "op_index d" "op_id d"] ts by (auto split: if_splits)
  ultimately have first: "\<exists>body t. op_doc d = Some body \<and> t \<in> set tasks
           \<and> sublist [Action ''update'' (op_index d) (op_id d), Body body True] t
           \<and> (\<forall>t'\<in>set tasks. Action ''create'' (op_index d) (op_id d) \<notin> set t')"
    using body t by blast
  from drain_counter[OF dr, of "''create''"] obtain pre2 x2 where
    q2: "q = pre2 @ x2 # rest"
    and n: "counter (ops b') ''create'' = counter (ops (b\<lparr>bulking := True\<rparr>)) ''create''
               + length (filter (\<lambda>d. op_type d = ''create'') (operations pre2))"
    by auto
  from q q2 have "pre2 = pre'" by simp
  with n opre have "counter (ops b') ''create''
           = counter (ops b) ''create'' + length (filter (\<lambda>d. op_type d = ''create'') (operations pre))"
    by simp
  with first show ?thesis by blast
qed

theorem create_sent_as_update_witness:
  "Bulker_run accept Bulker [Op create_A, END_DOCS, END_DOWNLOADS] =
     Returned (\<lparr>bulking = True, ops = [(''create'', 1)], chunk_size = 500\<rparr>,
       [[Action ''update'' ''idx'' ''A'', Body [(''id'', ''A''), (''timestamp'', ''T1'')] True]], [])
   \<and> op_type create_A = ''create''
   \<and> sublist [Action ''update'' ''idx'' ''A'', Body [(''id'', ''A''), (''timestamp'', ''T1'')] True]
        [Action ''update'' ''idx'' ''A'', Body [(''id'', ''A''), (''timestamp'', ''T1'')] True]
   \<and> Action ''create'' ''idx'' ''A'' \<notin> set [Action ''update'' ''idx'' ''A'', Body [(''id'', ''A''), (''timestamp'', ''T1'')] True]
   \<and> counter [(''create'', 1)] ''create'' = counter (ops Bulker) ''create'' + 1"
proof -
  note t = create_sent_as_update[OF run_create_A, of "[Op create_A, END_DOCS, END_DOWNLOADS]" create_A]
  have "counter (ops \<lparr>bulking = True, ops = [(''create'', 1)], chunk_size = 500\<rparr>) ''create''
      = counter (ops Bulker) ''create''
        + length (filter (\<lambda>d. op_type d = ''create'') (operations [Op create_A, END_DOCS, END_DOWNLOADS]))"
    using t by (simp add: create_A_def)
  then have "counter [(''create'', 1)] ''create'' = counter (ops Bulker) ''create'' + 1"
    by (simp add: create_A_def)
  then show ?thesis using run_create_A by (simp add: create_A_def)
qed

text \<open>
  C1, the claim as stated fails: the one batch dispatched for a single create operation
  holds an \<open>update\<close> descriptor and no \<open>create\<close> descriptor.
\<close>

theorem create_action_counterexample:
  "dispatched (Bulker_run accept Bulker [Op create_A, END_DOCS, END_DOWNLOADS]) =
     [[Action ''update'' ''idx'' ''A'', Body [(''id'', ''A''), (''timestamp'', ''T1'')] True]]
   \<and> op_type create_A = ''create''
   \<and> Action ''create'' ''idx'' ''A'' \<notin>
        set (concat (dispatched (Bulker_run accept Bulker [Op create_A, END_DOCS, END_DOWNLOADS])))"
  unfolding run_create_A dispatched_def by (simp add: create_A_def)

text \<open>
  C2. Claimed: no dispatched batch exceeds \<open>2 * chunk_size\<close> entries. The test of line 70
  runs after the entries of an operation were appended, so a batch of \<open>2 * chunk_size - 1\<close>
  entries that receives a two-entry operation is dispatched with \<open>2 * chunk_size + 1\<close>.
  What holds, for a positive chunk size: every dispatched batch is non-empty and has at
  most \<open>2 * chunk_size + 1\<close> entries, and every batch but the last one (the final flush)
  has at least \<open>2 * chunk_size\<close>.
\<close>

theorem batch_bound:
  assumes "Bulker_run client b q = Returned (b', tasks, rest)" and "0 < chunk_size b"
  shows "(\<forall>t\<in>set tasks. 0 < length t \<and> length t \<le> 2 * chunk_size b + 1)
       \<and> (\<forall>t\<in>set (butlast tasks). 2 * chunk_size b \<le> length t)"
proof -
  let ?b = "b\<lparr>bulking := True\<rparr>"
  from assms(1) obtain batch ltasks where
    dr: "drain ?b [] [] False False q = Returned (b', batch, ltasks, rest)"
    and ts: "tasks = (if batch = [] then ltasks else ltasks @ [batch])"
    by (rule Bulker_run_Returned)
  have "chunk_size b' = chunk_size ?b \<and> length batch < chunk_size ?b * 2 \<and>
    (\<forall>t\<in>set ltasks. chunk_size ?b * 2 \<le> length t \<and> length t \<le> chunk_size ?b * 2 + 1)"
    using assms(2) by (intro drain_sizes[OF dr]) simp_all
  then have b: "length batch < 2 * chunk_size b"
    and l: "\<forall>t\<in>set ltasks. 2 * chunk_size b \<le> length t \<and> length t \<le> 2 * chunk_size b + 1"
    by (simp_all add: mult.commute)
  from l assms(2) have pos: "\<forall>t\<in>set ltasks. 0 < length t" by fastforce
  show ?thesis
  proof (cases "batch = []")
    case True
    with ts l pos show ?thesis by (auto dest: in_set_butlastD)
  next
    case False
    with ts l pos b show ?thesis by auto
  qed
qed

theorem batch_bound_witness:
  "0 < chunk_size (Bulker\<lparr>chunk_size := 1\<rparr>)
   \<and> Bulker_run accept (Bulker\<lparr>chunk_size := 1\<rparr>) queue_mixed =
     Returned (\<lparr>bulking = True, ops = [(''delete'', 2), (''create'', 2)], chunk_size = 1\<rparr>,
       [[Action ''delete'' ''idx'' ''C'', Action ''update'' ''idx'' ''A'',
         Body [(''id'', ''A''), (''timestamp'', ''T1'')] True],
        [Action ''update'' ''idx'' ''A'', Body [(''id'', ''A''), (''timestamp'', ''T1'')] True],
        [Action ''delete'' ''idx'' ''C'']], [])
   \<and> length [Action ''delete'' ''idx'' ''C'', Action ''update'' ''idx'' ''A'',
         Body [(''id'', ''A''), (''timestamp'', ''T1'')] True]
       \<le> 2 * chunk_size (Bulker\<lparr>chunk_size := 1\<rparr>) + 1
   \<and> 2 * chunk_size (Bulker\<lparr>chunk_size := 1\<rparr>)
       \<le> length [Action ''update'' ''idx'' ''A'', Body [(''id'', ''A''), (''timestamp'', ''T1'')] True]"
  using batch_bound[OF run_mixed] run_mixed
  by (simp add: Bulker_def)

text \<open>
  C2, the claim as stated fails with the chunk size of the source, 500: one delete
  followed by 500 creates is dispatched as a single batch of 1001 entries.
\<close>

theorem batch_bound_counterexample:
  "map length (dispatched (Bulker_run accept Bulker queue_1001)) = [1001]
   \<and> 2 * chunk_size Bulker = 1000"
  unfolding dispatched_1001
  by (simp add: length_concat sum_list_replicate Bulker_def)

text \<open>
  C8. The loop of \<open>Bulker.run\<close> waits for ever only when one of the two markers never
  arrives. When both markers are on the queue, every operation carries what lines 64-68
  read and the client answers every bulk call, the run returns. When the run returns, the
  loop has stopped right after the marker that was still missing, in whichever order the
  two arrived, and has left the rest of the queue unread; the entries of every operation
  read before are inside a dispatched batch (so a non-empty last batch was dispatched), no
  dispatched batch is empty, and every dispatch call has answered.
\<close>

theorem bulker_stops_on_both_markers:
  "(Bulker_run client b q = Blocked \<longrightarrow> \<not> (END_DOCS \<in> set q \<and> END_DOWNLOADS \<in> set q))
   \<and> (END_DOCS \<in> set q \<and> END_DOWNLOADS \<in> set q
        \<and> (\<forall>d. Op d \<in> set q \<longrightarrow> wire_of d \<noteq> None)
        \<and> (\<forall>t. \<exists>r. batch_bulk client t = Inr r)
        \<longrightarrow> (\<exists>b1 tasks1 rest1. Bulker_run client b q = Returned (b1, tasks1, rest1)))
   \<and> (Bulker_run client b q = Returned (b', tasks, rest) \<longrightarrow>
        (\<exists>pre x. q = pre @ x # rest
           \<and> (x = END_DOCS \<or> x = END_DOWNLOADS)
           \<and> END_DOCS \<in> set (pre @ [x]) \<and> END_DOWNLOADS \<in> set (pre @ [x])
           \<and> \<not> (END_DOCS \<in> set pre \<and> END_DOWNLOADS \<in> set pre)
           \<and> (\<forall>d\<in>set (operations pre). \<exists>es t. wire_of d = Some es \<and> t \<in> set tasks \<and> sublist es t))
        \<and> [] \<notin> set tasks
        \<and> (\<forall>t\<in>set tasks. \<exists>r. batch_bulk client t = Inr r))"
proof (intro conjI impI)
  assume "Bulker_run client b q = Blocked"
  then have "drain (b\<lparr>bulking := True\<rparr>) [] [] False False q = Blocked"
    by (auto simp add: Bulker_run_def Let_def split: outcome.splits sum.splits)
  from drain_Blocked[OF this] show "\<not> (END_DOCS \<in> set q \<and> END_DOWNLOADS \<in> set q)" by simp
next
  assume a: "END_DOCS \<in> set q \<and> END_DOWNLOADS \<in> set q
        \<and> (\<forall>d. Op d \<in> set q \<longrightarrow> wire_of d \<noteq> None)
        \<and> (\<forall>t. \<exists>r. batch_bulk client t = Inr r)"
  then have "\<exists>r. drain (b\<lparr>bulking := True\<rparr>) [] [] False False q = Returned r"
    by (intro drain_returns) auto
  then obtain b1 batch ltasks rest1 where
    dr: "drain (b\<lparr>bulking := True\<rparr>) [] [] False False q = Returned (b1, batch, ltasks, rest1)"
    by (metis prod_cases4)
  let ?tasks = "if 0 < length batch then ltasks @ [batch] else ltasks"
  from a have "\<forall>x\<in>set (map (batch_bulk client) ?tasks). \<exists>r. x = Inr r" by auto
  from gather_all[OF this] obtain rs where "gather (map (batch_bulk client) ?tasks) = Inr rs"
    by blast
  with dr have "Bulker_run client b q = Returned (b1, ?tasks, rest1)"
    by (simp add: Bulker_run_def Let_def)
  then show "\<exists>b1 tasks1 rest1. Bulker_run client b q = Returned (b1, tasks1, rest1)" by blast
next
  assume run: "Bulker_run client b q = Returned (b', tasks, rest)"
  from run obtain batch ltasks where
    dr: "drain (b\<lparr>bulking := True\<rparr>) [] [] False False q = Returned (b', batch, ltasks, rest)"
    and ts: "tasks = (if batch = [] then ltasks else ltasks @ [batch])"
    and fin: "\<forall>t\<in>set tasks. \<exists>r. batch_bulk client t = Inr r"
    by (rule Bulker_run_Returned)
  show "\<forall>t\<in>set tasks. \<exists>r. batch_bulk client t = Inr r" by (rule fin)
  have "[] \<notin> set ltasks" using drain_nonempty[OF dr] by simp
  with ts show "[] \<notin> set tasks" by (simp split: if_splits)
  from drain_sublist[OF dr] obtain pre x where
    q: "q = pre @ x # rest" and st: "stops_at False False pre x"
    and sub: "\<forall>d\<in>set (operations pre). \<exists>es. wire_of d = Some es \<and> (\<exists>t\<in>set (ltasks @ [batch]). sublist es t)"
    by auto
  have "\<exists>es t. wire_of d = Some es \<and> t \<in> set tasks \<and> sublist es t" if "d \<in> set (operations pre)" for d
  proof -
    from sub that obtain es t where es: "wire_of d = Some es" "t \<in> set (ltasks @ [batch])" "sublist es t"
      by blast
    from es(1) wire_of_length[of d es] have "es \<noteq> []" by auto
    with es(3) have "t \<noteq> []" by auto
    with es(2) ts have "t \<in> set tasks" by (auto split: if_splits)
    with es show ?thesis by blast
  qed
  with q st show "\<exists>pre x. q = pre @ x # rest
           \<and> (x = END_DOCS \<or> x = END_DOWNLOADS)
           \<and> END_DOCS \<in> set (pre @ [x]) \<and> END_DOWNLOADS \<in> set (pre @ [x])
           \<and> \<not> (END_DOCS \<in> set pre \<and> END_DOWNLOADS \<in> set pre)
           \<and> (\<forall>d\<in>set (operations pre). \<exists>es t. wire_of d = Some es \<and> t \<in> set tasks \<and> sublist es t)"
    unfolding stops_at_def by blast
qed

theorem bulker_stops_on_both_markers_witness:
  "END_DOCS \<in> set queue_rest \<and> END_DOWNLOADS \<in> set queue_rest
   \<and> wire_of delete_C \<noteq> None \<and> wire_of create_A \<noteq> None
   \<and> Bulker_run accept (Bulker\<lparr>chunk_size := 1\<rparr>) queue_rest =
     Returned (\<lparr>bulking = True, ops = [(''delete'', 1), (''create'', 2)], chunk_size = 1\<rparr>,
       [[Action ''delete'' ''idx'' ''C'', Action ''update'' ''idx'' ''A'',
         Body [(''id'', ''A''), (''timestamp'', ''T1'')] True],
        [Action ''update'' ''idx'' ''A'', Body [(''id'', ''A''), (''timestamp'', ''T1'')] True]],
       [Op delete_C])
   \<and> queue_rest = [Op delete_C, Op create_A, END_DOWNLOADS, Op create_A] @ END_DOCS # [Op delete_C]
   \<and> END_DOWNLOADS \<in> set [Op delete_C, Op create_A, END_DOWNLOADS, Op create_A]
   \<and> END_DOCS \<notin> set [Op delete_C, Op create_A, END_DOWNLOADS, Op create_A]
   \<and> batch_bulk accept [Action ''update'' ''idx'' ''A'', Body [(''id'', ''A''), (''timestamp'', ''T1'')] True] = Inr ()"
proof -
  note t = bulker_stops_on_both_markers[of accept "Bulker\<lparr>chunk_size := 1\<rparr>" queue_rest
     "\<lparr>bulking = True, ops = [(''delete'', 1), (''create'', 2)], chunk_size = 1\<rparr>"
     "[[Action ''delete'' ''idx'' ''C'', Action ''update'' ''idx'' ''A'',
         Body [(''id'', ''A''), (''timestamp'', ''T1'')] True],
        [Action ''update'' ''idx'' ''A'', Body [(''id'', ''A''), (''timestamp'', ''T1'')] True]]"
     "[Op delete_C]"]
  have w: "wire_of delete_C \<noteq> None" "wire_of create_A \<noteq> None"
    by (simp_all add: wire_of_delete_C wire_of_create_A)
  have m: "END_DOCS \<in> set queue_rest" "END_DOWNLOADS \<in> set queue_rest"
    by (simp_all add: queue_rest_def)
  have "\<forall>d. Op d \<in> set queue_rest \<longrightarrow> wire_of d \<noteq> None"
    using w by (auto simp add: queue_rest_def)
  moreover have "\<forall>t. \<exists>r. batch_bulk accept t = Inr r" by (simp add: batch_bulk_def accept_def)
  ultimately have "\<exists>b1 tasks1 rest1. Bulker_run accept (Bulker\<lparr>chunk_size := 1\<rparr>) queue_rest
      = Returned (b1, tasks1, rest1)"
    using t m by blast
  then show ?thesis using run_rest w m
    by (simp add: queue_rest_def batch_bulk_def accept_def)
qed

section \<open>Claims about the Fetcher\<close>

text \<open>
  C3. Claimed: a document whose id has no timestamp in the snapshot is never skipped.
  Line 159 compares the document's timestamp with \<open>existing_timestamps.get(doc_id, "")\<close>,
  so a new document whose timestamp is the empty string is skipped: with an empty
  snapshot, nothing but the end marker reaches the queue.
\<close>

theorem blank_timestamp_skipped:
  "map_of (existing_timestamps (self (start [] [] heap_blank))) ''N'' = None
   \<and> queue_of (get_docs now (start [] [] heap_blank) [(0, Some no_attachment)]) = Some [END_DOCS]"
  by (simp add: get_docs_def get_docs_body_def received_def classify_def start_def Fetcher_def heap_blank_def
      get_default_def Let_def queue_of_def put_def)

text \<open>
  C7. Claimed: a skipped pair without lazy download is skipped without error. Line 161
  awaits \<open>lazy_download(doit=False)\<close> without the test for \<open>None\<close> that line 166 makes,
  so \<open>get_docs\<close> raises \<open>TypeError\<close> on such a pair.
\<close>

theorem skip_without_download_raises:
  "get_docs now (start [''A''] [(''A'', ''T1'')] heap_unchanged) [(0, None)] = Raised TypeError"
  by (simp add: get_docs_def get_docs_body_def received_def classify_def start_def Fetcher_def heap_unchanged_def
      get_default_def Let_def)

text \<open>
  C10. \<open>get_docs\<close> adds the id of every document the generator yields to \<open>seen_ids\<close>
  (line 151) before it decides to skip, so no delete operation of the pass carries such
  an id, skipped or not.
\<close>

theorem seen_id_never_deleted:
  assumes "get_docs iso_utc w generator = Returned w'"
    and "Some i \<in> set (yielded (heap w) generator)"
  shows "i \<in> seen_ids w' \<and>
    (\<exists>new. queue w' = queue w @ new \<and> (\<forall>d. Op d \<in> set new \<and> op_type d = ''delete'' \<longrightarrow> op_id d \<noteq> i))"
proof -
  from get_docs_seen[OF assms(1)] assms(2) have "i \<in> seen_ids w'" by simp
  moreover from get_docs_queue[OF assms(1)] obtain ups where
    q: "queue w' = queue w @ ups
          @ map (\<lambda>i. Op (delete_op (index (self w)) i))
              (filter (\<lambda>i. Some i \<notin> set (yielded (heap w) generator)) (existing_ids (self w)))
          @ [END_DOCS]" and ups: "\<forall>x\<in>set ups. is_put x" by blast
  let ?new = "ups @ map (\<lambda>i. Op (delete_op (index (self w)) i))
              (filter (\<lambda>i. Some i \<notin> set (yielded (heap w) generator)) (existing_ids (self w)))
          @ [END_DOCS]"
  have "op_id d \<noteq> i" if "Op d \<in> set ?new" "op_type d = ''delete''" for d
  proof -
    from that(2) have "\<not> is_put (Op d)" by (simp add: is_put_def)
    with ups that(1) obtain j where "d = delete_op (index (self w)) j"
      "Some j \<notin> set (yielded (heap w) generator)" by auto
    with assms(2) show ?thesis by (auto simp add: delete_op_def)
  qed
  with q have "queue w' = queue w @ ?new \<and> (\<forall>d. Op d \<in> set ?new \<and> op_type d = ''delete'' \<longrightarrow> op_id d \<noteq> i)"
    by blast
  ultimately show ?thesis by blast
qed

theorem seen_id_never_deleted_witness:
  "Some ''A'' \<in> set (yielded (heap (start [''A''] [(''A'', ''T1'')] heap_unchanged)) [(0, Some no_attachment)])
   \<and> queue_of (get_docs now (start [''A''] [(''A'', ''T1'')] heap_unchanged) [(0, Some no_attachment)])
       = Some [END_DOCS]
   \<and> Op (delete_op ''idx'' ''A'') \<notin> set [END_DOCS]"
proof -
  from run_unchanged obtain w' where
    r: "get_docs now (start [''A''] [(''A'', ''T1'')] heap_unchanged) [(0, Some no_attachment)] = Returned w'"
    and q: "queue w' = [END_DOCS]" by blast
  have y: "Some ''A'' \<in> set (yielded (heap (start [''A''] [(''A'', ''T1'')] heap_unchanged)) [(0, Some no_attachment)])"
    by (simp add: yielded_def start_def heap_unchanged_def)
  from seen_id_never_deleted[OF r y] have "''A'' \<in> seen_ids w'" by blast
  with r q y show ?thesis by (simp add: queue_of_def)
qed




section \<open>Claims about a whole sync\<close>

lemma sync_attachment:
  "async_bulk accept now [] [] ''idx'' heap_twice [(0, Some attach_A)] =
     Returned \<lparr>bulk_operations = [(''create'', 1), (''update'', 1)], doc_created = 1,
               attachment_extracted = 1, doc_updated = 0\<rparr>"
  by (simp add: sync_defs eval_defs)

lemma fetch_attachment:
  "\<exists>w. Fetcher_run now [] (start [] [] heap_twice) [(0, Some attach_A)] = Returned w
     \<and> filter is_delete (queue w) = []"
  by (simp add: sync_defs eval_defs is_delete_def)

lemma sync_delete:
  "async_bulk accept now [] [[(''id'', ''B''), (''timestamp'', ''T2'')]] ''idx'' heap_twice
       [(0, Some attach_A)] =
     Returned \<lparr>bulk_operations = [(''create'', 1), (''delete'', 1), (''update'', 1)],
               doc_created = 1, attachment_extracted = 1, doc_updated = 0\<rparr>"
  by (simp add: sync_defs eval_defs)

text \<open>
  C6. Claimed: created + updated + deletes equals the number of operations the Bulker
  counted, also when lazy downloads yield attachments. \<open>get_attachments\<close> puts an update
  operation for every attachment (lines 119-127) and counts it in \<open>total_downloads\<close>, not
  in \<open>total_docs_updated\<close>. What holds for every sync that returns, under every schedule
  of the two coroutines of the Fetcher: the queue is an interleaving of the queue of
  \<open>get_docs\<close> and the queue of \<open>get_attachments\<close>; every operation of \<open>get_attachments\<close>
  is an update, and their number is \<open>attachment_extracted\<close>; \<open>doc_created\<close> and
  \<open>doc_updated\<close> are the numbers of create and update operations of \<open>get_docs\<close>, whose
  delete operations are the deletes of the queue; the Bulker counts \<open>doc_created\<close> under
  \<open>create\<close>, \<open>doc_updated\<close> + \<open>attachment_extracted\<close> under \<open>update\<close>, and the deletes under
  \<open>delete\<close>; so created + updated + attachments extracted + deletes equals the sum of the
  Bulker's counters.
\<close>

theorem sync_counts:
  assumes "async_bulk client iso_utc sched es_docs idx h generator = Returned r"
  shows "\<exists>ids timestamps w1 w2 w.
       snapshot [] [] es_docs = Returned (ids, timestamps)
     \<and> get_docs iso_utc
           \<lparr>self = Fetcher idx ids timestamps, heap = h, queue = [], downloads = [],
            clock = 0, seen_ids = {}\<rparr> generator = Returned w1
     \<and> get_attachments (w1\<lparr>queue := []\<rparr>) (downloads w1) = Returned w2
     \<and> Fetcher_run iso_utc sched
           \<lparr>self = Fetcher idx ids timestamps, heap = h, queue = [], downloads = [],
            clock = 0, seen_ids = {}\<rparr> generator = Returned w
     \<and> queue w = interleave sched (queue w1) (queue w2)
     \<and> (\<forall>d\<in>set (operations (queue w2)). op_type d = ''update'')
     \<and> attachment_extracted r = length (operations (queue w2))
     \<and> doc_created r = length (filter (\<lambda>d. op_type d = ''create'') (operations (queue w1)))
     \<and> doc_updated r = length (filter (\<lambda>d. op_type d = ''update'') (operations (queue w1)))
     \<and> length (filter is_delete (queue w))
          = length (filter (\<lambda>d. op_type d = ''delete'') (operations (queue w1)))
     \<and> counter (bulk_operations r) ''create'' = doc_created r
     \<and> counter (bulk_operations r) ''update'' = doc_updated r + attachment_extracted r
     \<and> counter (bulk_operations r) ''delete'' = length (filter is_delete (queue w))
     \<and> doc_created r + doc_updated r + attachment_extracted r
          + length (filter is_delete (queue w))
        = sum_list (map snd (bulk_operations r))"
proof -
  from assms obtain ids timestamps w b tasks rest where
    s: "snapshot [] [] es_docs = Returned (ids, timestamps)"
    and f: "Fetcher_run iso_utc sched
           \<lparr>self = Fetcher idx ids timestamps, heap = h, queue = [], downloads = [],
            clock = 0, seen_ids = {}\<rparr> generator = Returned w"
    and br: "Bulker_run client Bulker (queue w) = Returned (b, tasks, rest)"
    and r: "r = \<lparr>bulk_operations = ops b, doc_created = total_docs_created (self w),
                attachment_extracted = total_downloads (self w),
                doc_updated = total_docs_updated (self w)\<rparr>"
    by (auto simp add: async_bulk_def split: outcome.splits prod.splits)
  let ?W = "\<lparr>self = Fetcher idx ids timestamps, heap = h, queue = [], downloads = [],
            clock = 0, seen_ids = {}\<rparr>"
  from br obtain batch ltasks where
    dr: "drain (Bulker\<lparr>bulking := True\<rparr>) [] [] False False (queue w) = Returned (b, batch, ltasks, rest)"
    by (rule Bulker_run_Returned)
  have e: "queue ?W = []" by simp
  have fq: "count_list (queue w) END_DOCS = 1" "count_list (queue w) END_DOWNLOADS = 1"
    "queue w \<noteq> []" "last (queue w) = END_DOCS \<or> last (queue w) = END_DOWNLOADS"
    and n: "total_docs_created (self w) + total_docs_updated (self w) + total_downloads (self w)
        + length (filter is_delete (queue w)) = length (operations (queue w))"
    using Fetcher_run_queue[OF f] by (simp_all add: Fetcher_def)
  from f e obtain w1 w2 where
    g: "get_docs iso_utc ?W generator = Returned w1"
    and a: "get_attachments (w1\<lparr>queue := []\<rparr>) (downloads w1) = Returned w2"
    and q: "queue w = interleave sched (queue w1) (queue w2)"
    and sw: "self w = self w2"
    and at: "\<forall>d\<in>set (operations (queue w2)). op_type d = ''update''"
    and dl: "total_downloads (self w2) = total_downloads (self ?W) + length (operations (queue w2))"
    and cr: "total_docs_created (self w2) = total_docs_created (self ?W)
          + length (filter (\<lambda>d. op_type d = ''create'') (operations (queue w1)))"
    and up: "total_docs_updated (self w2) = total_docs_updated (self ?W)
          + length (filter (\<lambda>d. op_type d = ''update'') (operations (queue w1)))"
    by (rule Fetcher_run_parts)
  have z: "total_downloads (self ?W) = 0" "total_docs_created (self ?W) = 0"
    "total_docs_updated (self ?W) = 0" by (simp_all add: Fetcher_def)
  have ae: "attachment_extracted r = length (operations (queue w2))"
    unfolding r using dl sw z by simp
  have dc: "doc_created r = length (filter (\<lambda>d. op_type d = ''create'') (operations (queue w1)))"
    unfolding r using cr sw z by simp
  have du: "doc_updated r = length (filter (\<lambda>d. op_type d = ''update'') (operations (queue w1)))"
    unfolding r using up sw z by simp
  have f2: "filter (\<lambda>d. op_type d = ''create'') (operations (queue w2)) = []"
    "filter (\<lambda>d. op_type d = ''delete'') (operations (queue w2)) = []"
    "filter (\<lambda>d. op_type d = ''update'') (operations (queue w2)) = operations (queue w2)"
    using at by (simp_all add: filter_empty_conv filter_id_conv)
  have dd: "length (filter is_delete (queue w))
          = length (filter (\<lambda>d. op_type d = ''delete'') (operations (queue w1)))"
    unfolding is_delete_operations q interleave_operations_filter f2 by simp
  have k: "counter (ops b) k = length (filter (\<lambda>d. op_type d = k) (operations (queue w)))" for k
    using drain_all_counter[OF dr fq, of k] by (simp add: Bulker_def counter_def)
  have kc: "counter (bulk_operations r) ''create'' = doc_created r"
    unfolding dc unfolding r using k[of "''create''"]
    unfolding q interleave_operations_filter f2 by simp
  have ku: "counter (bulk_operations r) ''update'' = doc_updated r + attachment_extracted r"
    unfolding du ae unfolding r using k[of "''update''"]
    unfolding q interleave_operations_filter f2 by simp
  have kd: "counter (bulk_operations r) ''delete'' = length (filter is_delete (queue w))"
    unfolding dd unfolding r using k[of "''delete''"]
    unfolding q interleave_operations_filter f2 by simp
  from drain_all[OF dr fq] have "sum_list (map snd (ops b)) = length (operations (queue w))"
    by (simp add: Bulker_def)
  with n have sm: "doc_created r + doc_updated r + attachment_extracted r
          + length (filter is_delete (queue w)) = sum_list (map snd (bulk_operations r))"
    unfolding r by simp
  from s g a f q at ae dc du dd kc ku kd sm show ?thesis
    by (intro exI[of _ ids] exI[of _ timestamps] exI[of _ w1] exI[of _ w2] exI[of _ w] conjI)
qed

text \<open>
  One new document with an attachment, and one indexed document that is not yielded: one
  create and one delete from \<open>get_docs\<close>, one update from \<open>get_attachments\<close>, and no
  document counted as updated.
\<close>

theorem sync_counts_witness:
  "async_bulk accept now [] [[(''id'', ''B''), (''timestamp'', ''T2'')]] ''idx'' heap_twice
       [(0, Some attach_A)] =
     Returned \<lparr>bulk_operations = [(''create'', 1), (''delete'', 1), (''update'', 1)],
               doc_created = 1, attachment_extracted = 1, doc_updated = 0\<rparr>
   \<and> snapshot [] [] [[(''id'', ''B''), (''timestamp'', ''T2'')]] = Returned ([''B''], [(''B'', ''T2'')])
   \<and> (\<exists>w1 w2. get_docs now (start [''B''] [(''B'', ''T2'')] heap_twice) [(0, Some attach_A)] = Returned w1
         \<and> get_attachments (w1\<lparr>queue := []\<rparr>) (downloads w1) = Returned w2
         \<and> length (operations (queue w2)) = 1
         \<and> length (filter (\<lambda>d. op_type d = ''create'') (operations (queue w1))) = 1
         \<and> length (filter (\<lambda>d. op_type d = ''update'') (operations (queue w1))) = 0
         \<and> length (filter (\<lambda>d. op_type d = ''delete'') (operations (queue w1))) = 1)
   \<and> counter [(''create'', 1), (''delete'', 1), (''update'', 1)] ''update'' = 0 + 1
   \<and> (1::nat) + 0 + 1 + 1 = sum_list (map snd [(''create'', 1::nat), (''delete'', 1), (''update'', 1)])"
proof -
  let ?r = "\<lparr>bulk_operations = [(''create'', 1), (''delete'', 1), (''update'', 1)],
               doc_created = 1, attachment_extracted = 1, doc_updated = 0\<rparr>"
  from sync_counts[OF sync_delete] obtain ids timestamps w1 w2 w where
    all: "snapshot [] [] [[(''id'', ''B''), (''timestamp'', ''T2'')]] = Returned (ids, timestamps)
     \<and> get_docs now \<lparr>self = Fetcher ''idx'' ids timestamps, heap = heap_twice, queue = [],
               downloads = [], clock = 0, seen_ids = {}\<rparr> [(0, Some attach_A)] = Returned w1
     \<and> get_attachments (w1\<lparr>queue := []\<rparr>) (downloads w1) = Returned w2
     \<and> Fetcher_run now [] \<lparr>self = Fetcher ''idx'' ids timestamps, heap = heap_twice, queue = [],
               downloads = [], clock = 0, seen_ids = {}\<rparr> [(0, Some attach_A)] = Returned w
     \<and> queue w = interleave [] (queue w1) (queue w2)
     \<and> (\<forall>d\<in>set (operations (queue w2)). op_type d = ''update'')
     \<and> attachment_extracted ?r = length (operations (queue w2))
     \<and> doc_created ?r = length (filter (\<lambda>d. op_type d = ''create'') (operations (queue w1)))
     \<and> doc_updated ?r = length (filter (\<lambda>d. op_type d = ''update'') (operations (queue w1)))
     \<and> length (filter is_delete (queue w))
          = length (filter (\<lambda>d. op_type d = ''delete'') (operations (queue w1)))
     \<and> counter (bulk_operations ?r) ''create'' = doc_created ?r
     \<and> counter (bulk_operations ?r) ''update'' = doc_updated ?r + attachment_extracted ?r
     \<and> counter (bulk_operations ?r) ''delete'' = length (filter is_delete (queue w))
     \<and> doc_created ?r + doc_updated ?r + attachment_extracted ?r
          + length (filter is_delete (queue w))
        = sum_list (map snd (bulk_operations ?r))"
    by (elim exE)
  note s = all[THEN conjunct1]
  note g = all[THEN conjunct2, THEN conjunct1]
  note a = all[THEN conjunct2, THEN conjunct2, THEN conjunct1]
  note ae = all[THEN conjunct2, THEN conjunct2, THEN conjunct2, THEN conjunct2, THEN conjunct2, THEN conjunct2, THEN conjunct1]
  note dc = all[THEN conjunct2, THEN conjunct2, THEN conjunct2, THEN conjunct2, THEN conjunct2, THEN conjunct2, THEN conjunct2, THEN conjunct1]
  note du = all[THEN conjunct2, THEN conjunct2, THEN conjunct2, THEN conjunct2, THEN conjunct2, THEN conjunct2, THEN conjunct2, THEN conjunct2, THEN conjunct1]
  note dd = all[THEN conjunct2, THEN conjunct2, THEN conjunct2, THEN conjunct2, THEN conjunct2, THEN conjunct2, THEN conjunct2, THEN conjunct2, THEN conjunct2, THEN conjunct1]
  note ku = all[THEN conjunct2, THEN conjunct2, THEN conjunct2, THEN conjunct2, THEN conjunct2, THEN conjunct2, THEN conjunct2, THEN conjunct2, THEN conjunct2, THEN conjunct2, THEN conjunct2, THEN conjunct1]
  note kd = all[THEN conjunct2, THEN conjunct2, THEN conjunct2, THEN conjunct2, THEN conjunct2, THEN conjunct2, THEN conjunct2, THEN conjunct2, THEN conjunct2, THEN conjunct2, THEN conjunct2, THEN conjunct2, THEN conjunct1]
  note sm = all[THEN conjunct2, THEN conjunct2, THEN conjunct2, THEN conjunct2, THEN conjunct2, THEN conjunct2, THEN conjunct2, THEN conjunct2, THEN conjunct2, THEN conjunct2, THEN conjunct2, THEN conjunct2, THEN conjunct2]
  have sv: "snapshot [] [] [[(''id'', ''B''), (''timestamp'', ''T2'')]] = Returned ([''B''], [(''B'', ''T2'')])"
    by simp
  with s have i: "ids = [''B'']" "timestamps = [(''B'', ''T2'')]" by simp_all
  from g have g': "get_docs now (start [''B''] [(''B'', ''T2'')] heap_twice) [(0, Some attach_A)] = Returned w1"
    unfolding i start_def .
  from ae have ae': "length (operations (queue w2)) = 1" by simp
  from dc have dc': "length (filter (\<lambda>d. op_type d = ''create'') (operations (queue w1))) = 1" by simp
  from du have du': "length (filter (\<lambda>d. op_type d = ''update'') (operations (queue w1))) = 0" by simp
  from kd dd have dd': "length (filter (\<lambda>d. op_type d = ''delete'') (operations (queue w1))) = 1"
    by (simp add: counter_def)
  have ex: "\<exists>w1 w2. get_docs now (start [''B''] [(''B'', ''T2'')] heap_twice) [(0, Some attach_A)] = Returned w1
         \<and> get_attachments (w1\<lparr>queue := []\<rparr>) (downloads w1) = Returned w2
         \<and> length (operations (queue w2)) = 1
         \<and> length (filter (\<lambda>d. op_type d = ''create'') (operations (queue w1))) = 1
         \<and> length (filter (\<lambda>d. op_type d = ''update'') (operations (queue w1))) = 0
         \<and> length (filter (\<lambda>d. op_type d = ''delete'') (operations (queue w1))) = 1"
    using g' a ae' dc' du' dd' by (intro exI[of _ w1] exI[of _ w2] conjI)
  from ku have ku': "counter [(''create'', 1), (''delete'', 1), (''update'', 1)] ''update'' = 0 + 1"
    by simp
  from sm kd have sm': "(1::nat) + 0 + 1 + 1 = sum_list (map snd [(''create'', 1::nat), (''delete'', 1), (''update'', 1)])"
    by simp
  from sync_delete sv ex ku' sm' show ?thesis by (intro conjI)
qed

text \<open>
  C6, the claim as stated fails: one new document with an attachment gives one created
  document, no update and no delete, and two operations counted by the Bulker.
\<close>

theorem sync_counts_counterexample:
  "async_bulk accept now [] [] ''idx'' heap_twice [(0, Some attach_A)] =
     Returned \<lparr>bulk_operations = [(''create'', 1), (''update'', 1)], doc_created = 1,
               attachment_extracted = 1, doc_updated = 0\<rparr>
   \<and> map_option (\<lambda>q. length (filter is_delete q))
        (queue_of (Fetcher_run now [] (start [] [] heap_twice) [(0, Some attach_A)])) = Some 0
   \<and> (1::nat) + 0 + 0 \<noteq> sum_list (map snd [(''create'', 1::nat), (''update'', 1)])"
proof -
  from fetch_attachment obtain w where
    "Fetcher_run now [] (start [] [] heap_twice) [(0, Some attach_A)] = Returned w"
    "filter is_delete (queue w) = []" by blast
  then show ?thesis using sync_attachment by (simp add: queue_of_def)
qed

lemma fetch_early:
  "\<exists>w3. Fetcher_run now [True, False] (start [''B''] [(''B'', ''T2'')] heap_twice) [(0, Some attach_A)] = Returned w3
     \<and> queue w3 = [Op \<lparr>op_type = ''create'', op_index = ''idx'', op_id = ''A'',
                        op_doc = Some [(''id'', ''A''), (''timestamp'', ''NOW'')],
                        op_doc_as_upsert = Some True\<rparr>,
                    Op \<lparr>op_type = ''update'', op_index = ''idx'', op_id = ''A'',
                        op_doc = Some [(''text'', ''body'')], op_doc_as_upsert = Some True\<rparr>,
                    Op (delete_op ''idx'' ''B''), END_DOCS, END_DOWNLOADS]"
  by (simp add: sync_defs eval_defs delete_op_def)

lemma fetch_late:
  "\<exists>w3. Fetcher_run now [] (start [''B''] [(''B'', ''T2'')] heap_twice) [(0, Some attach_A)] = Returned w3
     \<and> queue w3 = [Op \<lparr>op_type = ''create'', op_index = ''idx'', op_id = ''A'',
                        op_doc = Some [(''id'', ''A''), (''timestamp'', ''NOW'')],
                        op_doc_as_upsert = Some True\<rparr>,
                    Op (delete_op ''idx'' ''B''), END_DOCS,
                    Op \<lparr>op_type = ''update'', op_index = ''idx'', op_id = ''A'',
                        op_doc = Some [(''text'', ''body'')], op_doc_as_upsert = Some True\<rparr>,
                    END_DOWNLOADS]"
  by (simp add: sync_defs eval_defs delete_op_def)

text \<open>
  C5. Claimed: no delete precedes any create or update of the pass. On the queue the two
  coroutines of the Fetcher share, the items of \<open>get_docs\<close> are its create and update
  operations, then one delete for each existing id the generator did not yield, then the
  end marker, in this order; the updates \<open>get_attachments\<close> puts for attachments are
  interleaved with them by the event loop and may follow a delete. What holds, for every
  schedule: each such id has exactly one delete on the shared queue (\<open>existing_ids\<close> is a
  set), and every delete comes after all the create and update operations that
  \<open>get_docs\<close> put, that is after the generator was exhausted.
\<close>

theorem deletes_on_channel:
  assumes "Fetcher_run iso_utc sched w generator = Returned w3"
    and "queue w = []" and "distinct (existing_ids (self w))"
  shows "\<exists>ups dels atts.
        queue w3 = interleave sched (ups @ dels @ [END_DOCS]) (atts @ [END_DOWNLOADS])
      \<and> (\<forall>x\<in>set ups. is_put x) \<and> (\<forall>x\<in>set atts. is_put x)
      \<and> dels = map (\<lambda>i. Op (delete_op (index (self w)) i))
                 (filter (\<lambda>i. Some i \<notin> set (yielded (heap w) generator)) (existing_ids (self w)))
      \<and> (\<forall>i\<in>set (existing_ids (self w)). Some i \<notin> set (yielded (heap w) generator) \<longrightarrow>
            count_list (queue w3) (Op (delete_op (index (self w)) i)) = 1)"
proof -
  from assms(1) obtain w1 w2 where g: "get_docs iso_utc w generator = Returned w1"
    and a: "get_attachments (w1\<lparr>queue := []\<rparr>) (downloads w1) = Returned w2"
    and w3: "w3 = w2\<lparr>queue := interleave sched (queue w1) (queue w2)\<rparr>"
    by (auto simp add: Fetcher_run_def split: outcome.splits)
  let ?f = "\<lambda>i. Op (delete_op (index (self w)) i)"
  let ?dels = "map ?f (filter (\<lambda>i. Some i \<notin> set (yielded (heap w) generator)) (existing_ids (self w)))"
  from get_docs_deletes[OF g assms(3)] assms(2) obtain ups where
    q1: "queue w1 = ups @ ?dels @ [END_DOCS]" and ups: "\<forall>x\<in>set ups. is_put x"
    and one: "\<forall>i\<in>set (existing_ids (self w)). Some i \<notin> set (yielded (heap w) generator) \<longrightarrow>
            count_list (ups @ ?dels @ [END_DOCS]) (?f i) = 1"
    by auto
  from get_attachments_Returned[OF a] get_docs_self(1)[OF g] obtain ds where
    q2: "queue w2 = map Op ds @ [END_DOWNLOADS]" and ds: "\<forall>d\<in>set ds. op_type d = ''update''"
    by auto
  have atts: "\<forall>x\<in>set (map Op ds). is_put x" using ds by (auto simp add: is_put_def)
  have none: "count_list (queue w2) (?f i) = 0" for i
  proof -
    have "?f i \<notin> set (map Op ds)" using atts delete_op_not_put by blast
    then show ?thesis unfolding q2 by (simp add: count_list_0_iff)
  qed
  have q3: "queue w3 = interleave sched (ups @ ?dels @ [END_DOCS]) (map Op ds @ [END_DOWNLOADS])"
    unfolding w3 q1 q2 by simp
  have "count_list (queue w3) (?f i) = 1"
    if "i \<in> set (existing_ids (self w))" "Some i \<notin> set (yielded (heap w) generator)" for i
  proof -
    have "count_list (queue w3) (?f i) = count_list (queue w1) (?f i) + count_list (queue w2) (?f i)"
      unfolding w3 by (simp add: interleave_count)
    with one that none[of i] show ?thesis unfolding q1 by simp
  qed
  with q3 ups atts show ?thesis by blast
qed

theorem deletes_on_channel_witness:
  "queue (start [''B''] [(''B'', ''T2'')] heap_twice) = []
   \<and> distinct (existing_ids (self (start [''B''] [(''B'', ''T2'')] heap_twice)))
   \<and> yielded heap_twice [(0, Some attach_A)] = [Some ''A'']
   \<and> map_option (\<lambda>q. count_list q (Op (delete_op ''idx'' ''B'')))
       (queue_of (Fetcher_run now [True, False] (start [''B''] [(''B'', ''T2'')] heap_twice)
          [(0, Some attach_A)])) = Some 1"
proof -
  let ?w = "start [''B''] [(''B'', ''T2'')] heap_twice"
  from fetch_early obtain w3 where
    r: "Fetcher_run now [True, False] ?w [(0, Some attach_A)] = Returned w3" by blast
  have e: "queue ?w = []" and d: "distinct (existing_ids (self ?w))"
    by (simp_all add: start_def Fetcher_def)
  have y: "yielded (heap ?w) [(0, Some attach_A)] = [Some ''A'']"
    by (simp add: yielded_def start_def heap_twice_def)
  from deletes_on_channel[OF r e d]
  have "count_list (queue w3) (Op (delete_op (index (self ?w)) ''B'')) = 1"
    unfolding y by (auto simp add: start_def Fetcher_def)
  then have "count_list (queue w3) (Op (delete_op ''idx'' ''B'')) = 1"
    by (simp add: start_def Fetcher_def)
  with r e d y show ?thesis by (simp add: queue_of_def start_def)
qed

text \<open>
  C5, the claim as stated fails: when the download of the attachment of \<open>A\<close> ends after
  \<open>get_docs\<close> has finished, the delete of \<open>B\<close> is the second item of the queue and the
  update for the attachment the fourth.
\<close>

theorem delete_before_attachment_counterexample:
  "map_option (\<lambda>q. (is_delete (q ! 1), is_put (q ! 3), length q))
     (queue_of (Fetcher_run now [] (start [''B''] [(''B'', ''T2'')] heap_twice)
        [(0, Some attach_A)])) = Some (True, True, 5)"
proof -
  from fetch_late obtain w3 where
    r: "Fetcher_run now [] (start [''B''] [(''B'', ''T2'')] heap_twice) [(0, Some attach_A)] = Returned w3"
    and q: "queue w3 = [Op \<lparr>op_type = ''create'', op_index = ''idx'', op_id = ''A'',
                        op_doc = Some [(''id'', ''A''), (''timestamp'', ''NOW'')],
                        op_doc_as_upsert = Some True\<rparr>,
                    Op (delete_op ''idx'' ''B''), END_DOCS,
                    Op \<lparr>op_type = ''update'', op_index = ''idx'', op_id = ''A'',
                        op_doc = Some [(''text'', ''body'')], op_doc_as_upsert = Some True\<rparr>,
                    END_DOWNLOADS]" by blast
  show ?thesis unfolding r queue_of_def
    by (simp add: q is_delete_def is_put_def delete_op_def)
qed



end
